theory Spec2Isabelle
  imports Main "HOL-Library.Word" "HOL-Library.Signed_Division" "HOL-Library.Log_Nat"
begin

unbundle bit_operations_syntax

section \<open>Temperature control firmware (main.c): data model\<close>

text \<open>
  The target is the MSP430G2x53: \<open>int\<close> and \<open>unsigned int\<close> are 16 bits wide, the port
  registers are 8 bits wide. Both integer types are 16-bit words; the signed reading of a
  word is \<open>sint\<close>, and a conversion between the two types keeps the bits. Signed overflow
  is modelled as two's complement wrap-around, which is what the MSP430 compilers emit.
\<close>

type_synonym c_int = "16 word"
type_synonym c_uint = "16 word"

text \<open>
  What the firmware does to the outside world, one event per statement that touches a
  peripheral register or burns time, in program order.
\<close>

datatype event =
    Set_P2OUT "8 word"      \<comment> \<open>\<open>P2OUT = v\<close>\<close>
  | Or_P1OUT "8 word"       \<comment> \<open>\<open>P1OUT |= m\<close>\<close>
  | And_P1OUT "8 word"      \<comment> \<open>\<open>P1OUT &= m\<close>\<close>
  | Delay_cycles nat        \<comment> \<open>\<open>__delay_cycles(n)\<close>\<close>
  | Busy_wait nat           \<comment> \<open>an empty counting loop \<open>for (i = n; i > 0; i--);\<close>\<close>
  | Adc_disable             \<comment> \<open>\<open>ADC10CTL0 &= ~ENC\<close>\<close>
  | Set_ADC10SA "16 word"   \<comment> \<open>\<open>ADC10SA = a\<close>\<close>
  | Adc_start               \<comment> \<open>\<open>ADC10CTL0 |= ENC + ADC10SC\<close>\<close>

text \<open>
  Ways in which a run of the code does not deliver a result: a polling loop that has used
  up the register readings supplied to it and is still waiting, a read past the end of
  the table \<open>index[]\<close>, and a conversion from \<open>double\<close> to \<open>int\<close> whose value does not fit.
  The last two are undefined behaviour in C.
\<close>

datatype fault = Still_waiting | Index_out_of_bounds | Int_conversion_out_of_range

subsection \<open>Compile-time constants\<close>

definition WAIT_TIME :: c_int where
  "WAIT_TIME = 200"

definition BEEP_TIME :: c_int where
  "BEEP_TIME = 1500"

definition SOUND_DELAY :: c_int where
  "SOUND_DELAY = 20"

definition EMPTY_X :: c_uint where
  "EMPTY_X = 10"

text \<open>The 7-segment patterns, bit order \<open>0bABCDEFGP\<close>; entry 10 is the all-clear character.\<close>

definition index :: "c_uint list" where
  "index = [0xFC, 0x60, 0xDA, 0xF2, 0x66, 0xB6, 0xBE, 0xE0, 0xFE, 0xF6, 0x00]"

text \<open>\<open>index[d]\<close>: the array has 11 entries, and C does not check the subscript.\<close>

definition index_at :: "c_uint \<Rightarrow> fault + c_uint" where
  "index_at d = (if unat d < length index then Inr (index ! unat d) else Inl Index_out_of_bounds)"

subsection \<open>C integer division\<close>

text \<open>\<open>/\<close> and \<open>%\<close> on \<open>int\<close> truncate towards zero; the remainder has the sign of the dividend.\<close>

definition c_div :: "c_int \<Rightarrow> c_int \<Rightarrow> c_int" where
  "c_div a b = word_of_int (sint a sdiv sint b)"

definition c_mod :: "c_int \<Rightarrow> c_int \<Rightarrow> c_int" where
  "c_mod a b = word_of_int (sint a smod sint b)"

subsection \<open>Double arithmetic\<close>

text \<open>
  A finite \<open>double\<close> is a pair \<open>(m, e)\<close> of integers standing for \<open>m * 2 ^ e\<close>. Every
  operation yields the exact result rounded to the nearest value with a 53-bit
  significand, ties to even (IEEE 754 binary64). Exponent overflow and underflow are left
  out: the values of this program lie between \<open>10\<^sup>-\<^sup>4\<close> and \<open>10\<^sup>5\<close> in magnitude, or are 0.
\<close>

type_synonym double = "int \<times> int"

definition DBL_MANT_DIG :: nat where
  "DBL_MANT_DIG = 53"

definition round_half_even :: "int \<Rightarrow> int \<Rightarrow> int" where
  "round_half_even n d =
     (let q = n div d; r = n mod d
      in if 2 * r < d then q
         else if d < 2 * r then q + 1
         else if even q then q else q + 1)"

text \<open>
  \<open>fl_ratio p n d\<close> rounds the rational \<open>n / d\<close> (\<open>d > 0\<close>) to \<open>p\<close> significant bits. With
  \<open>a = \<bar>n\<bar>\<close> the quotient \<open>a / d\<close> lies strictly between \<open>2 ^ (k - 1)\<close> and \<open>2 ^ (k + 1)\<close> for
  \<open>k = bitlen a - bitlen d\<close>, so the exponent of the last significant bit is \<open>k - p\<close> or
  \<open>k - p + 1\<close>.
\<close>

definition fl_ratio :: "nat \<Rightarrow> int \<Rightarrow> int \<Rightarrow> double" where
  "fl_ratio p n d =
     (if n = 0 then (0, 0)
      else
        let a = \<bar>n\<bar>;
            e0 = bitlen a - bitlen d - int p;
            e = (if a * 2 ^ nat (- e0) < 2 ^ p * (d * 2 ^ nat e0) then e0 else e0 + 1);
            m = round_half_even (a * 2 ^ nat (- e)) (d * 2 ^ nat e)
        in (sgn n * m, e))"

definition dbl_num :: "double \<Rightarrow> int" where
  "dbl_num x = fst x * 2 ^ nat (snd x)"

definition dbl_den :: "double \<Rightarrow> int" where
  "dbl_den x = 2 ^ nat (- snd x)"

text \<open>A decimal constant of the source text, \<open>n / d\<close> with \<open>d\<close> a power of ten.\<close>

definition dbl_const :: "int \<Rightarrow> int \<Rightarrow> double" where
  "dbl_const n d = fl_ratio DBL_MANT_DIG n d"

text \<open>Conversion of an \<open>int\<close> to \<open>double\<close> is exact.\<close>

definition dbl_of_int :: "c_int \<Rightarrow> double" where
  "dbl_of_int i = (sint i, 0)"

definition dbl_mul :: "double \<Rightarrow> double \<Rightarrow> double" where
  "dbl_mul x y = fl_ratio DBL_MANT_DIG (dbl_num x * dbl_num y) (dbl_den x * dbl_den y)"

text \<open>Division by a positive divisor, the only one in the program (\<open>/ 1000\<close>).\<close>

definition dbl_div :: "double \<Rightarrow> double \<Rightarrow> double" where
  "dbl_div x y = fl_ratio DBL_MANT_DIG (dbl_num x * dbl_den y) (dbl_den x * dbl_num y)"

text \<open>
  Conversion of a \<open>double\<close> to \<open>int\<close> drops the fraction (towards zero); a value outside
  the range of \<open>int\<close> is undefined behaviour.
\<close>

definition dbl_to_int :: "double \<Rightarrow> fault + c_int" where
  "dbl_to_int x =
     (let t = sgn (fst x) * (\<bar>dbl_num x\<bar> div dbl_den x)
      in if - 32768 \<le> t \<and> t \<le> 32767 then Inr (word_of_int t)
         else Inl Int_conversion_out_of_range)"

definition VOLTAGE_COEFF :: double where
  "VOLTAGE_COEFF = dbl_const 296 100"

subsection \<open>Build configuration, inputs and state\<close>

text \<open>
  The three feature macros of the source are parameters, so that other builds can be
  stated; \<open>source_config\<close> below holds the values main.c defines. \<open>degree_conv\<close> evaluates
  the Steinhart-Hart equation with \<open>log()\<close> of the C library; its numeric result is not
  part of this development, and the function enters as a parameter of the build.
\<close>

record config =
  READ_VOLTAGE_OR_DEG :: bool
  TEMP_THRESHOLD_TOGGLE :: bool
  BUZZER_LIMIT :: c_uint
  degree_conv :: "double \<Rightarrow> fault + c_int"

definition source_config :: "(double \<Rightarrow> fault + c_int) \<Rightarrow> config" where
  "source_config dc =
     \<lparr> READ_VOLTAGE_OR_DEG = True, TEMP_THRESHOLD_TOGGLE = True, BUZZER_LIMIT = 5,
       degree_conv = dc \<rparr>"

text \<open>
  What one pass of the main loop reads from the hardware: the successive values of
  \<open>P2IN\<close>, the successive outcomes of the test \<open>ADC10CTL1 & BUSY\<close>, and the two entries
  of \<open>p1_samples\<close> the loop uses.
\<close>

record inputs =
  P2IN :: "8 word list"
  ADC10_busy :: "bool list"
  p1_samples_0 :: c_uint
  p1_samples_2 :: c_uint

text \<open>The locals of \<open>main\<close> that survive from one pass to the next.\<close>

record state =
  buzz_ctr :: c_uint
  button_ctr :: c_uint

section \<open>Display driver\<close>

definition sck :: c_uint where
  "sck = 0x08"

definition rck :: c_uint where
  "rck = 0x10"

text \<open>The three loops of \<open>write_7seg\<close>, each counting \<open>i\<close> down to 0.\<close>

fun fill_lower :: "nat \<Rightarrow> event list" where
  "fill_lower 0 = []"
| "fill_lower (Suc i) =
     [Set_P2OUT 0, Delay_cycles 1, Set_P2OUT (ucast sck), Delay_cycles 1,
      Set_P2OUT 0, Delay_cycles 1]
     @ fill_lower i"

fun fill_upper :: "nat \<Rightarrow> c_int \<Rightarrow> event list" where
  "fill_upper 0 pos = []"
| "fill_upper (Suc i) pos =
     (if pos = 1
      then [Set_P2OUT 1, Delay_cycles 1, Set_P2OUT (ucast (sck OR 1)), Delay_cycles 1,
            Set_P2OUT 1, Delay_cycles 1]
      else [Set_P2OUT 0, Delay_cycles 1, Set_P2OUT (ucast (sck OR 0)), Delay_cycles 1,
            Set_P2OUT 0, Delay_cycles 1])
     @ fill_upper i (pos - 1)"

fun write_message :: "nat \<Rightarrow> c_int \<Rightarrow> event list" where
  "write_message 0 data = []"
| "write_message (Suc i) data =
     (let bit = data AND 1
      in [Delay_cycles 1, Set_P2OUT (ucast bit), Set_P2OUT (ucast (sck OR bit)),
          Delay_cycles 1, Set_P2OUT (ucast bit), Delay_cycles 1])
     @ write_message i (signed_drop_bit 1 data)"

text \<open>\<open>write_7seg(data, index)\<close>; the second parameter is called \<open>pos\<close> here.\<close>

definition write_7seg :: "c_int \<Rightarrow> c_int \<Rightarrow> event list" where
  "write_7seg data pos =
     fill_lower 4 @ fill_upper 4 pos @ write_message 8 data
     @ [Set_P2OUT (ucast rck), Delay_cycles 1]"

text \<open>
  The loop of \<open>inject_7seg\<close>. The table is read at each pass, before the first register
  write of the pass.
\<close>

fun inject_loop ::
  "nat \<Rightarrow> c_uint \<Rightarrow> c_uint \<Rightarrow> c_uint \<Rightarrow> c_uint \<Rightarrow> fault + event list" where
  "inject_loop 0 d_1 d_2 d_3 d_4 = Inr []"
| "inject_loop (Suc i) d_1 d_2 d_3 d_4 =
     (case index_at d_1 of Inl f \<Rightarrow> Inl f | Inr c_1 \<Rightarrow>
     (case index_at d_2 of Inl f \<Rightarrow> Inl f | Inr c_2 \<Rightarrow>
     (case index_at d_3 of Inl f \<Rightarrow> Inl f | Inr c_3 \<Rightarrow>
     (case index_at d_4 of Inl f \<Rightarrow> Inl f | Inr c_4 \<Rightarrow>
     (case inject_loop i d_1 d_2 d_3 d_4 of Inl f \<Rightarrow> Inl f | Inr rest \<Rightarrow>
        Inr (write_7seg c_1 4 @ [Delay_cycles 10000]
             @ write_7seg c_2 3 @ [Delay_cycles 10000]
             @ write_7seg c_3 2 @ [Delay_cycles 10000]
             @ write_7seg c_4 1 @ [Delay_cycles 10000]
             @ rest))))))"

text \<open>\<open>int i = delay*0.4\<close>, then \<open>for (; i > 0; i--)\<close>.\<close>

definition inject_7seg ::
  "c_uint \<Rightarrow> c_uint \<Rightarrow> c_uint \<Rightarrow> c_uint \<Rightarrow> c_int \<Rightarrow> fault + event list" where
  "inject_7seg d_1 d_2 d_3 d_4 delay =
     (case dbl_to_int (dbl_mul (dbl_of_int delay) (dbl_const 4 10)) of
        Inl f \<Rightarrow> Inl f
      | Inr i \<Rightarrow> inject_loop (nat (sint i)) d_1 d_2 d_3 d_4)"

text \<open>The four digit values \<open>(d_1, d_2, d_3, d_4)\<close> computed by \<open>write_4digit\<close>.\<close>

definition digits_4 :: "c_int \<Rightarrow> c_uint \<times> c_uint \<times> c_uint \<times> c_uint" where
  "digits_4 number =
     (let d_4 = c_mod number 10;
          d_3 = c_mod (c_div number 10) 10;
          d_2 = c_mod (c_div number 100) 10;
          d_1 = c_mod (c_div number 1000) 10
      in (d_1, d_2, d_3, d_4))"

text \<open>\<open>write_4digit\<close> ignores its \<open>delay\<close> parameter and passes \<open>WAIT_TIME\<close> on.\<close>

definition write_4digit :: "c_int \<Rightarrow> c_int \<Rightarrow> fault + event list" where
  "write_4digit number delay =
     (case digits_4 number of (d_1, d_2, d_3, d_4) \<Rightarrow> inject_7seg d_1 d_2 d_3 d_4 WAIT_TIME)"

section \<open>Buzzer\<close>

text \<open>
  \<open>BEEP_TIME_MOD\<close> expands to \<open>1500*1/(2*20)\<close>, evaluated in \<open>int\<close> from left to right.
\<close>

definition BEEP_TIME_MOD :: c_int where
  "BEEP_TIME_MOD = c_div (BEEP_TIME * 1) (2 * SOUND_DELAY)"

fun buzz_loop :: "nat \<Rightarrow> event list" where
  "buzz_loop 0 = []"
| "buzz_loop (Suc i) =
     [Or_P1OUT 0x41, Busy_wait (nat (sint SOUND_DELAY)),
      And_P1OUT 0xBE, Busy_wait (nat (sint SOUND_DELAY))]
     @ buzz_loop i"

definition buzz :: "event list" where
  "buzz = buzz_loop (nat (sint BEEP_TIME_MOD))"

section \<open>Main loop\<close>

text \<open>
  \<open>while (button == 0x00) { for(i = WAIT_TIME; i > 0; i--); button = P2IN & 0x02; }\<close>
  over the readings of \<open>P2IN\<close> still to come.
\<close>

fun button_hold :: "c_uint \<Rightarrow> 8 word list \<Rightarrow> fault + event list" where
  "button_hold button [] = (if button = 0 then Inl Still_waiting else Inr [])"
| "button_hold button (r # rs) =
     (if button = 0
      then (case button_hold (ucast r AND 0x02) rs of
              Inl f \<Rightarrow> Inl f
            | Inr es \<Rightarrow> Inr (Busy_wait (nat (sint WAIT_TIME)) # es))
      else Inr [])"

text \<open>Lines 98 to 105: the new press count and the time spent while the button is held.\<close>

definition button_sense :: "c_uint \<Rightarrow> 8 word list \<Rightarrow> fault + (c_uint \<times> event list)" where
  "button_sense ctr reads =
     (case reads of
        [] \<Rightarrow> Inl Still_waiting
      | r # rs \<Rightarrow>
          (let button = ucast r AND 0x02;
               ctr' = (if button = 0 then ctr + 1 else ctr)
           in (case button_hold button rs of
                 Inl f \<Rightarrow> Inl f
               | Inr es \<Rightarrow> Inr (ctr', es))))"

text \<open>\<open>while (ADC10CTL1 & BUSY);\<close>\<close>

fun adc_wait :: "bool list \<Rightarrow> fault + unit" where
  "adc_wait [] = Inl Still_waiting"
| "adc_wait (b # bs) = (if b then adc_wait bs else Inr ())"

text \<open>Lines 112 to 121, the register traffic of one data acquisition.\<close>

definition acquire :: "bool list \<Rightarrow> fault + event list" where
  "acquire busy =
     (case adc_wait busy of
        Inl f \<Rightarrow> Inl f
      | Inr u \<Rightarrow>
          Inr [Adc_disable, Set_ADC10SA 0x200, Or_P1OUT 0x01, Adc_start,
               And_P1OUT (ucast (NOT (0x01 :: c_int)))])"

text \<open>
  The printing code, which main.c has twice (lines 127 to 133 for \<open>voltage_pot\<close>, lines
  146 to 152 for \<open>voltage\<close>).
\<close>

definition print_7seg :: "config \<Rightarrow> double \<Rightarrow> fault + event list" where
  "print_7seg cfg voltage =
     (if READ_VOLTAGE_OR_DEG cfg
      then (case dbl_to_int voltage of
              Inl f \<Rightarrow> Inl f
            | Inr number \<Rightarrow> write_4digit number WAIT_TIME)
      else (case degree_conv cfg (dbl_div voltage (dbl_of_int 1000)) of
              Inl f \<Rightarrow> Inl f
            | Inr degree \<Rightarrow> write_4digit degree WAIT_TIME))"

text \<open>Lines 137 to 143: the events of the buzzer, if it runs, and the new counter.\<close>

definition threshold_control :: "config \<Rightarrow> c_int \<Rightarrow> c_int \<Rightarrow> c_uint \<Rightarrow> event list \<times> c_uint" where
  "threshold_control cfg reading reading_pot ctr =
     (if TEMP_THRESHOLD_TOGGLE cfg \<and> reading_pot <s reading \<and> ctr < BUZZER_LIMIT cfg
      then (buzz, ctr + 1)
      else if reading_pot <s reading then ([], ctr + 1)
      else ([], 0))"

text \<open>One pass of the body of \<open>for (;;)\<close>.\<close>

definition iteration :: "config \<Rightarrow> inputs \<Rightarrow> state \<Rightarrow> fault + (state \<times> event list)" where
  "iteration cfg inp s =
     (case button_sense (button_ctr s) (P2IN inp) of
        Inl f \<Rightarrow> Inl f
      | Inr (ctr, held) \<Rightarrow>
          (if ctr mod 3 = 2
           then (case inject_7seg EMPTY_X EMPTY_X EMPTY_X EMPTY_X WAIT_TIME of
                   Inl f \<Rightarrow> Inl f
                 | Inr shown \<Rightarrow> Inr (s\<lparr>button_ctr := ctr\<rparr>, held @ shown))
           else
             (case acquire (ADC10_busy inp) of
                Inl f \<Rightarrow> Inl f
              | Inr sampled \<Rightarrow>
                  (let reading = p1_samples_2 inp;
                       reading_pot = p1_samples_0 inp;
                       voltage = dbl_mul (dbl_of_int reading) VOLTAGE_COEFF;
                       voltage_pot = dbl_mul (dbl_of_int reading_pot) VOLTAGE_COEFF
                   in if ctr mod 3 = 1
                      then (case print_7seg cfg voltage_pot of
                              Inl f \<Rightarrow> Inl f
                            | Inr shown \<Rightarrow>
                                Inr (s\<lparr>button_ctr := ctr\<rparr>, held @ sampled @ shown))
                      else
                        (case threshold_control cfg reading reading_pot (buzz_ctr s) of
                           (buzzed, ctr_b) \<Rightarrow>
                             (case print_7seg cfg voltage of
                                Inl f \<Rightarrow> Inl f
                              | Inr shown \<Rightarrow>
                                  Inr (s\<lparr>buzz_ctr := ctr_b, button_ctr := ctr\<rparr>,
                                       held @ sampled @ buzzed @ shown)))))))"

text \<open>The loop itself, for as many passes as there are inputs, with the state after each.\<close>

fun main_loop :: "config \<Rightarrow> inputs list \<Rightarrow> state \<Rightarrow> fault + (state \<times> event list) list" where
  "main_loop cfg [] s = Inr []"
| "main_loop cfg (inp # inps) s =
     (case iteration cfg inp s of
        Inl f \<Rightarrow> Inl f
      | Inr (s', es) \<Rightarrow>
          (case main_loop cfg inps s' of
             Inl f \<Rightarrow> Inl f
           | Inr rest \<Rightarrow> Inr ((s', es) # rest)))"

section \<open>Observers\<close>

text \<open>
  What the shift-register chain on port 2 sees. P2.0 is the serial data line, P2.3 the
  shift clock and P2.4 the register clock. A rising edge of the shift clock takes in the
  level of the data line; a rising edge of the register clock latches the word.
\<close>

datatype bus = Shift bool | Latch

fun bus_actions :: "8 word \<Rightarrow> event list \<Rightarrow> bus list" where
  "bus_actions prev [] = []"
| "bus_actions prev (Set_P2OUT v # es) =
     (if \<not> bit prev 3 \<and> bit v 3 then [Shift (bit v 0)] else [])
     @ (if \<not> bit prev 4 \<and> bit v 4 then [Latch] else [])
     @ bus_actions v es"
| "bus_actions prev (e # es) = bus_actions prev es"

fun final_P2OUT :: "8 word \<Rightarrow> event list \<Rightarrow> 8 word" where
  "final_P2OUT prev [] = prev"
| "final_P2OUT prev (Set_P2OUT v # es) = final_P2OUT v es"
| "final_P2OUT prev (e # es) = final_P2OUT prev es"

text \<open>The buzzer is on P1.6; only \<open>buzz\<close> raises that pin.\<close>

fun drives_buzzer :: "event \<Rightarrow> bool" where
  "drives_buzzer (Or_P1OUT m) = bit m 6"
| "drives_buzzer e = False"

definition buzzer_invoked :: "event list \<Rightarrow> bool" where
  "buzzer_invoked es = list_ex drives_buzzer es"

fun adc_event :: "event \<Rightarrow> bool" where
  "adc_event Adc_disable = True"
| "adc_event (Set_ADC10SA a) = True"
| "adc_event Adc_start = True"
| "adc_event e = False"

definition samples_taken :: "event list \<Rightarrow> bool" where
  "samples_taken es = list_ex adc_event es"

text \<open>One pass of the display refresh with the four patterns already looked up.\<close>

definition refresh :: "c_uint \<Rightarrow> c_uint \<Rightarrow> c_uint \<Rightarrow> c_uint \<Rightarrow> event list" where
  "refresh c_1 c_2 c_3 c_4 =
     write_7seg c_1 4 @ [Delay_cycles 10000]
     @ write_7seg c_2 3 @ [Delay_cycles 10000]
     @ write_7seg c_3 2 @ [Delay_cycles 10000]
     @ write_7seg c_4 1 @ [Delay_cycles 10000]"

text \<open>
  The events of showing four digit values for the dwell of \<open>WAIT_TIME\<close>: 80 refresh
  passes, the leftmost digit (position 4) first in each.
\<close>

definition display_of :: "nat \<times> nat \<times> nat \<times> nat \<Rightarrow> event list" where
  "display_of ds =
     (case ds of (a, b, c, d) \<Rightarrow>
        concat (replicate 80 (refresh (index ! a) (index ! b) (index ! c) (index ! d))))"

text \<open>
  The thousands, hundreds, tens and units digit of a natural number, as the
  specification writes them.
\<close>

definition decimal_4 :: "nat \<Rightarrow> nat \<times> nat \<times> nat \<times> nat" where
  "decimal_4 n = (n div 1000 mod 10, n div 100 mod 10, n div 10 mod 10, n mod 10)"

text \<open>The events that \<open>write_7seg\<close> and \<open>inject_7seg\<close> produce: port 2 writes and delays.\<close>

fun display_event :: "event \<Rightarrow> bool" where
  "display_event (Set_P2OUT v) = True"
| "display_event (Delay_cycles n) = True"
| "display_event e = False"

text \<open>The value of \<open>buzz_ctr\<close> after each pass, and whether the buzzer ran in the pass.\<close>

definition buzz_ctr_trace :: "config \<Rightarrow> inputs list \<Rightarrow> state \<Rightarrow> fault + c_uint list" where
  "buzz_ctr_trace cfg inps s = map_sum id (map (\<lambda>r. buzz_ctr (fst r))) (main_loop cfg inps s)"

definition buzzer_trace :: "config \<Rightarrow> inputs list \<Rightarrow> state \<Rightarrow> fault + bool list" where
  "buzzer_trace cfg inps s =
     map_sum id (map (\<lambda>r. buzzer_invoked (snd r))) (main_loop cfg inps s)"

section \<open>The display driver on the wire\<close>

lemma upt_0_Suc: "[0..<Suc n] = 0 # map Suc [0..<n]"
  by (simp add: upt_conv_Cons map_Suc_upt del: upt_Suc)

lemma bus_actions_append:
  "bus_actions prev (xs @ ys) = bus_actions prev xs @ bus_actions (final_P2OUT prev xs) ys"
  by (induction prev xs rule: bus_actions.induct) simp_all

lemma final_P2OUT_append:
  "final_P2OUT prev (xs @ ys) = final_P2OUT (final_P2OUT prev xs) ys"
  by (induction prev xs rule: final_P2OUT.induct) simp_all

lemma ucast_sck: "(ucast sck :: 8 word) = 8"
  by (simp add: sck_def)

lemma bit_8_word: "bit (8 :: 8 word) n \<longleftrightarrow> n = 3"
proof -
  have "(8 :: 8 word) = push_bit 3 1" by simp
  then show ?thesis by (auto simp only: bit_simps) simp_all
qed

lemma bit_1_word: "bit (1 :: 8 word) n \<longleftrightarrow> n = 0"
  by (simp add: bit_simps)

lemma bit_9_word: "bit (9 :: 8 word) n \<longleftrightarrow> n = 0 \<or> n = 3"
proof -
  have "(9 :: 8 word) = 8 OR 1" by simp
  then show ?thesis by (simp only: bit_or_iff bit_8_word bit_1_word) auto
qed

lemma bus_fill_lower: "bus_actions prev (fill_lower n) = replicate n (Shift False)"
  by (induction n arbitrary: prev) (simp_all add: ucast_sck bit_8_word)

text \<open>Pass \<open>k\<close> of the second loop (counting from 0) clocks a one exactly if \<open>pos = k + 1\<close>.\<close>

lemma bus_fill_upper:
  "bus_actions prev (fill_upper n pos) = map (\<lambda>k. Shift (pos = 1 + of_nat k)) [0..<n]"
proof (induction n arbitrary: prev pos)
  case 0
  show ?case by simp
next
  case (Suc n)
  have eq: "(pos - 1 = 1 + of_nat k) = (pos = 1 + of_nat (Suc k))" for k
    by auto
  have strobe: "(ucast (sck OR 1) :: 8 word) = 9" "(ucast (sck OR 0) :: 8 word) = 8"
    by (simp_all add: sck_def)
  show ?case
    unfolding upt_0_Suc
    by (simp add: Suc.IH strobe ucast_sck bit_8_word bit_9_word bit_1_word eq)
qed

lemma bit0_mask1: "bit (ucast (data AND 1 :: 16 word) :: 8 word) 0 = bit data 0"
  by (simp add: bit_simps)

lemma bitn_mask1: "0 < n \<Longrightarrow> \<not> bit (ucast (data AND 1 :: 16 word) :: 8 word) n"
  by (simp add: bit_simps)

lemma bit3_strobe: "bit (ucast (sck OR (data AND 1)) :: 8 word) 3"
  by (simp add: bit_simps sck_def)

lemma bit0_strobe: "bit (ucast (sck OR (data AND 1)) :: 8 word) 0 = bit data 0"
  by (simp add: bit_simps sck_def)

lemma bit4_strobe: "\<not> bit (ucast (sck OR (data AND 1)) :: 8 word) 4"
  by (simp add: bit_simps sck_def)

text \<open>Pass \<open>k\<close> of the third loop clocks bit \<open>k\<close> of \<open>data\<close>: the low bit goes first.\<close>

lemma bus_write_message:
  "n \<le> 15 \<Longrightarrow>
   bus_actions prev (write_message n data) = map (\<lambda>k. Shift (bit data k)) [0..<n]"
proof (induction n arbitrary: prev data)
  case 0
  show ?case by simp
next
  case (Suc n)
  from Suc.prems have n: "n \<le> 15" by simp
  have eq: "bit (signed_drop_bit (Suc 0) data) k = bit data (Suc k)" if "k < n" for k
    using that Suc.prems by (simp add: bit_signed_drop_bit_iff)
  show ?case
    unfolding upt_0_Suc
    by (simp add: Suc.IH [OF n] Let_def bit0_mask1 bit3_strobe bit0_strobe bitn_mask1
        bit4_strobe eq)
qed

lemma final_write_message_low:
  "\<not> bit prev 4 \<Longrightarrow> \<not> bit (final_P2OUT prev (write_message n data)) 4"
  by (induction n arbitrary: prev data) (simp_all add: Let_def bitn_mask1)

lemma final_write_message:
  "\<not> bit (final_P2OUT prev (write_message (Suc n) data)) 4"
  by (simp add: Let_def final_write_message_low bitn_mask1)

lemma bus_write_7seg:
  "bus_actions prev (write_7seg data pos) =
     map Shift ([False, False, False, False] @ [pos = 1, pos = 2, pos = 3, pos = 4]
                @ map (bit data) [0..<8])
     @ [Latch]"
proof -
  have a: "bus_actions p (fill_lower 4) = map Shift [False, False, False, False]" for p
    unfolding bus_fill_lower by (simp add: eval_nat_numeral)
  have b: "bus_actions p (fill_upper 4 pos) = map Shift [pos = 1, pos = 2, pos = 3, pos = 4]"
    for p
    unfolding bus_fill_upper by (simp add: upt_rec numeral_eq_Suc)
  have c: "bus_actions p (write_message 8 data) = map Shift (map (bit data) [0..<8])" for p
    by (simp add: bus_write_message)
  have d: "\<not> bit (final_P2OUT p (write_message 8 data)) 4" for p
    using final_write_message [of p 7 data] by simp
  have e: "bit (ucast rck :: 8 word) 4" "\<not> bit (ucast rck :: 8 word) 3"
    by (simp_all add: rck_def bit_simps)
  show ?thesis
    by (simp only: write_7seg_def bus_actions_append final_P2OUT_append a b c)
       (simp add: d e)
qed

lemma bit_ucast_byte: "k < 8 \<Longrightarrow> bit (ucast (b :: 8 word) :: 16 word) k = bit b k"
  by (simp add: bit_simps)

lemma map_bit_ucast_byte: "map (bit (ucast (b :: 8 word) :: 16 word)) [0..<8] = map (bit b) [0..<8]"
  by (simp add: bit_ucast_byte)

text \<open>
  Claim C4. For every pattern byte \<open>b\<close> and every position \<open>pos\<close> in \<open>{1, 2, 3, 4}\<close>,
  \<open>write_7seg(b, pos)\<close> clocks exactly 16 bits into the shift register: four zeros, then
  four digit-select bits of which the one numbered \<open>pos\<close> (counting from 1 in clocking
  order) is set and no other, then bit 0 to bit 7 of \<open>b\<close> in that order. The register
  clock rises once, after the sixteenth bit. Neither depends on the level the port had
  before the call.
\<close>

theorem write_7seg_frame:
  assumes "pos \<in> {1, 2, 3, 4}"
  shows "bus_actions prev (write_7seg (ucast (b :: 8 word)) pos) =
           map Shift ([False, False, False, False]
                      @ map (\<lambda>k. k = unat pos) [1, 2, 3, 4]
                      @ map (bit b) [0..<8])
           @ [Latch]
         \<and> length (filter (\<lambda>k. k = unat pos) [1, 2, 3, 4]) = 1"
proof -
  have sel: "[pos = 1, pos = 2, pos = 3, pos = 4] = map (\<lambda>k. k = unat pos) [1, 2, 3, 4]"
    using assms by auto
  have one: "length (filter (\<lambda>k. k = unat pos) [1, 2, 3, 4]) = 1"
    using assms by auto
  show ?thesis
    unfolding bus_write_7seg sel map_bit_ucast_byte using one by simp
qed

theorem write_7seg_frame_witness:
  "(3 :: c_int) \<in> {1, 2, 3, 4}
   \<and> bus_actions 0x10 (write_7seg (ucast (0xDA :: 8 word)) 3) =
       map Shift ([False, False, False, False]
                  @ [False, False, True, False]
                  @ [False, True, False, True, True, False, True, True])
       @ [Latch]"
proof -
  have h: "(3 :: c_int) \<in> {1, 2, 3, 4}" by simp
  have bits: "map (bit (0xDA :: 8 word)) [0..<8]
      = [False, True, False, True, True, False, True, True]"
    by code_simp
  show ?thesis
    using write_7seg_frame [OF h, of "0x10" "0xDA"] by (simp add: bits)
qed

text \<open>
  Claim C10. For every position argument outside \<open>{1, 2, 3, 4}\<close>, \<open>write_7seg\<close> still
  clocks exactly 16 bits and raises the register clock once after them, and the four
  digit-select bits are all zero: the word that is latched selects no digit.
\<close>

theorem write_7seg_no_digit:
  assumes "pos \<notin> {1, 2, 3, 4}"
  shows "bus_actions prev (write_7seg data pos) =
           map Shift ([False, False, False, False]
                      @ [False, False, False, False]
                      @ map (bit data) [0..<8])
           @ [Latch]"
  unfolding bus_write_7seg using assms by simp

theorem write_7seg_no_digit_witness:
  "(5 :: c_int) \<notin> {1, 2, 3, 4}
   \<and> bus_actions 0 (write_7seg 0xFC 5) =
       map Shift ([False, False, False, False]
                  @ [False, False, False, False]
                  @ [False, False, True, True, True, True, True, True])
       @ [Latch]"
proof -
  have h: "(5 :: c_int) \<notin> {1, 2, 3, 4}" by simp
  have bits: "map (bit (0xFC :: c_int)) [0..<8]
      = [False, False, True, True, True, True, True, True]"
    by code_simp
  show ?thesis
    using write_7seg_no_digit [OF h, of 0 "0xFC"] by (simp add: bits)
qed

section \<open>Digits and table lookups\<close>

lemma sint_word16: "- 32768 \<le> k \<Longrightarrow> k < 32768 \<Longrightarrow> sint (word_of_int k :: 16 word) = k"
  by (simp add: sint_sbintrunc' signed_take_bit_int_eq_self)

lemma sint_range16: "- 32768 \<le> sint (w :: 16 word)" "sint (w :: 16 word) < 32768"
  using sint_ge [of w] sint_lt [of w] by simp_all

lemma sdiv_pos: "0 < (l::int) \<Longrightarrow> k sdiv l = sgn k * (\<bar>k\<bar> div l)"
  by (simp add: signed_divide_int_def)

lemma smod_pos: "0 < (l::int) \<Longrightarrow> k smod l = sgn k * (\<bar>k\<bar> mod l)"
  by (simp add: signed_modulo_int_def)

lemma sint_c_div:
  assumes "0 < sint b"
  shows "sint (c_div a b) = sint a sdiv sint b"
proof -
  have "\<bar>sint a\<bar> div sint b \<le> \<bar>sint a\<bar>"
    by (cases "sint a = 0") (simp_all add: int_div_le_self)
  moreover have "\<bar>sint a\<bar> \<le> 32768"
    using sint_range16 [of a] by simp
  ultimately have r: "\<bar>sint a\<bar> div sint b \<le> 32768" by simp
  have nn: "0 \<le> \<bar>sint a\<bar> div sint b"
    using assms by (simp add: pos_imp_zdiv_nonneg_iff)
  have "sint a sdiv sint b < 32768 \<and> - 32768 \<le> sint a sdiv sint b"
  proof (cases "sint a < 0")
    case True
    then show ?thesis using r nn assms by (simp add: sdiv_pos)
  next
    case False
    then have "\<bar>sint a\<bar> < 32768" using sint_range16 [of a] by simp
    then have "\<bar>sint a\<bar> div sint b < 32768"
      using \<open>\<bar>sint a\<bar> div sint b \<le> \<bar>sint a\<bar>\<close> by simp
    with False nn assms show ?thesis by (simp add: sdiv_pos sgn_if)
  qed
  then show ?thesis by (simp add: c_div_def sint_word16)
qed

lemma lits: "sint (10 :: 16 word) = 10" "sint (100 :: 16 word) = 100" "sint (1000 :: 16 word) = 1000"
  by simp_all

lemma digits_4_sint:
  "digits_4 N =
     (word_of_int ((sint N sdiv 1000) smod 10), word_of_int ((sint N sdiv 100) smod 10),
      word_of_int ((sint N sdiv 10) smod 10), word_of_int (sint N smod 10))"
  by (simp add: digits_4_def Let_def c_mod_def sint_c_div lits)

lemma sdiv_nonneg: "0 \<le> (k::int) \<Longrightarrow> 0 < l \<Longrightarrow> k sdiv l = k div l"
  by (cases "k = 0") (simp_all add: sdiv_pos)

lemma smod_nonneg: "0 \<le> (k::int) \<Longrightarrow> 0 < l \<Longrightarrow> k smod l = k mod l"
  by (cases "k = 0") (simp_all add: smod_pos)

lemma digits_4_nonneg:
  assumes "0 \<le> sint N"
  shows "digits_4 N =
     (case decimal_4 (nat (sint N)) of (a, b, c, d) \<Rightarrow> (of_nat a, of_nat b, of_nat c, of_nat d))"
proof -
  define n where "n = nat (sint N)"
  have N: "sint N = int n" using assms by (simp add: n_def)
  have d: "(int n sdiv int k) smod 10 = int (n div k mod 10)" if "0 < k" for k
  proof -
    have "int n sdiv int k = int (n div k)"
      using that by (simp add: sdiv_nonneg zdiv_int)
    then show ?thesis by (simp add: smod_nonneg zmod_int)
  qed
  have u: "int n smod 10 = int (n mod 10)"
    by (simp add: smod_nonneg zmod_int)
  have "digits_4 N =
     (word_of_int (int (n div 1000 mod 10)), word_of_int (int (n div 100 mod 10)),
      word_of_int (int (n div 10 mod 10)), word_of_int (int (n mod 10)))"
    unfolding digits_4_sint N using d [of 1000] d [of 100] d [of 10] u by simp
  then show ?thesis
    by (simp add: decimal_4_def n_def [symmetric])
qed

lemma dwell_WAIT_TIME: "dbl_to_int (dbl_mul (dbl_of_int WAIT_TIME) (dbl_const 4 10)) = Inr 80"
  by code_simp

lemma inject_7seg_WAIT_TIME:
  "inject_7seg d_1 d_2 d_3 d_4 WAIT_TIME = inject_loop 80 d_1 d_2 d_3 d_4"
  by (simp add: inject_7seg_def dwell_WAIT_TIME)

lemma inject_loop_Inr:
  assumes "index_at d_1 = Inr c_1" "index_at d_2 = Inr c_2"
    "index_at d_3 = Inr c_3" "index_at d_4 = Inr c_4"
  shows "inject_loop n d_1 d_2 d_3 d_4 = Inr (concat (replicate n (refresh c_1 c_2 c_3 c_4)))"
  by (induction n) (simp_all add: assms refresh_def)

lemma index_at_cases: "index_at d = Inl Index_out_of_bounds \<or> index_at d = Inr (index ! unat d)"
  by (simp add: index_at_def)

lemma length_index: "length index = 11"
  by (simp add: index_def)

lemma inject_loop_Suc:
  "inject_loop (Suc n) d_1 d_2 d_3 d_4 =
     (if unat d_1 < 11 \<and> unat d_2 < 11 \<and> unat d_3 < 11 \<and> unat d_4 < 11
      then (case inject_loop n d_1 d_2 d_3 d_4 of
              Inl f \<Rightarrow> Inl f
            | Inr rest \<Rightarrow>
                Inr (refresh (index ! unat d_1) (index ! unat d_2) (index ! unat d_3)
                       (index ! unat d_4) @ rest))
      else Inl Index_out_of_bounds)"
  by (simp add: index_at_def length_index refresh_def split: sum.split)

lemma inject_loop_Inl:
  assumes "11 \<le> unat d_1 \<or> 11 \<le> unat d_2 \<or> 11 \<le> unat d_3 \<or> 11 \<le> unat d_4"
  shows "inject_loop (Suc n) d_1 d_2 d_3 d_4 = Inl Index_out_of_bounds"
  unfolding inject_loop_Suc using assms by auto

lemma decimal_4_bounds:
  "decimal_4 n = (a, b, c, d) \<Longrightarrow> a \<le> 9 \<and> b \<le> 9 \<and> c \<le> 9 \<and> d \<le> 9"
  by (auto simp: decimal_4_def)

lemma index_at_small: "a \<le> 10 \<Longrightarrow> index_at (of_nat a) = Inr (index ! a)"
  by (simp add: index_at_def length_index unsigned_of_nat take_bit_nat_eq_self)

lemma write_4digit_nonneg:
  assumes "0 \<le> sint N"
  shows "write_4digit N delay = Inr (display_of (decimal_4 (nat (sint N))))"
proof -
  obtain a b c d where dec: "decimal_4 (nat (sint N)) = (a, b, c, d)"
    by (cases "decimal_4 (nat (sint N))") 
  from decimal_4_bounds [OF dec] have le: "a \<le> 10" "b \<le> 10" "c \<le> 10" "d \<le> 10"
    by simp_all
  show ?thesis
    unfolding write_4digit_def digits_4_nonneg [OF assms] dec inject_7seg_WAIT_TIME
    by (simp add: inject_loop_Inr [OF index_at_small [OF le(1)] index_at_small [OF le(2)]
          index_at_small [OF le(3)] index_at_small [OF le(4)]] display_of_def)
qed



lemma div_mod_digit:
  fixes n k j :: nat
  assumes "0 < k"
  shows "n mod (k * (10 * j)) div k mod 10 = n div k mod 10"
proof -
  have "n mod (k * (10 * j)) div k = n div k mod (10 * j)"
    using assms by (simp add: mod_mult2_eq)
  then show ?thesis by (simp add: mod_mod_cancel)
qed

lemma decimal_4_mod: "decimal_4 (n mod 10000) = decimal_4 n"
proof -
  have "n mod 10000 div 1000 mod 10 = n div 1000 mod 10"
    using div_mod_digit [of 1000 n 1] by simp
  moreover have "n mod 10000 div 100 mod 10 = n div 100 mod 10" 
    using div_mod_digit [of 100 n 10] by simp
  moreover have "n mod 10000 div 10 mod 10 = n div 10 mod 10" 
    using div_mod_digit [of 10 n 100] by simp
  moreover have "n mod 10000 mod 10 = n mod 10"
    by (simp add: mod_mod_cancel)
  ultimately show ?thesis by (simp add: decimal_4_def)
qed

text \<open>The four digits are the decimal expansion of \<open>n mod 10000\<close>.\<close>

lemma decimal_4_expansion:
  "decimal_4 n = (a, b, c, d) \<Longrightarrow> n mod 10000 = 1000 * a + 100 * b + 10 * c + d"
proof -
  assume "decimal_4 n = (a, b, c, d)"
  then have a: "a = n div 1000 mod 10" and b: "b = n div 100 mod 10"
    and c: "c = n div 10 mod 10" and d: "d = n mod 10"
    by (simp_all add: decimal_4_def)
  have "n mod 10000 = 1000 * (n div 1000 mod 10) + n mod 1000"
    using mod_mult2_eq [of n 1000 10] by simp
  also have "n mod 1000 = 100 * (n div 100 mod 10) + n mod 100"
    using mod_mult2_eq [of n 100 10] by simp
  also have "n mod 100 = 10 * (n div 10 mod 10) + n mod 10"
    using mod_mult2_eq [of n 10 10] by simp
  finally show ?thesis by (simp add: a b c d)
qed

lemma decimal_4_zero: "decimal_4 n = (0, 0, 0, 0) \<longleftrightarrow> 10000 dvd n"
proof
  assume "decimal_4 n = (0, 0, 0, 0)"
  from decimal_4_expansion [OF this] show "10000 dvd n" by (simp add: dvd_eq_mod_eq_0)
next
  assume "10000 dvd n"
  then have "n mod 10000 = 0" by (simp add: dvd_eq_mod_eq_0)
  then have "decimal_4 (n mod 10000) = (0, 0, 0, 0)" by (simp add: decimal_4_def)
  then show "decimal_4 n = (0, 0, 0, 0)" by (simp add: decimal_4_mod)
qed

lemma decimal_4_nines: "decimal_4 n = (9, 9, 9, 9) \<longleftrightarrow> n mod 10000 = 9999"
proof
  assume "decimal_4 n = (9, 9, 9, 9)"
  from decimal_4_expansion [OF this] show "n mod 10000 = 9999" by simp
next
  assume "n mod 10000 = 9999"
  then have "decimal_4 (n mod 10000) = (9, 9, 9, 9)" by (simp add: decimal_4_def)
  then show "decimal_4 n = (9, 9, 9, 9)" by (simp add: decimal_4_mod)
qed


lemma sdiv_nonpos: "(k::int) \<le> 0 \<Longrightarrow> 0 < l \<Longrightarrow> k sdiv l = - ((- k) div l)"
  by (cases "k = 0") (simp_all add: sdiv_pos)

lemma smod_nonpos: "(k::int) \<le> 0 \<Longrightarrow> 0 < l \<Longrightarrow> k smod l = - ((- k) mod l)"
  by (cases "k = 0") (simp_all add: smod_pos)

lemma digits_4_neg:
  assumes "sint N < 0"
  shows "digits_4 N =
     (case decimal_4 (nat (- sint N)) of
        (a, b, c, d) \<Rightarrow> (- of_nat a, - of_nat b, - of_nat c, - of_nat d))"
proof -
  define n where "n = nat (- sint N)"
  have N: "sint N = - int n" using assms by (simp add: n_def)
  have d: "(- int n sdiv int k) smod 10 = - int (n div k mod 10)" if "0 < k" for k
  proof -
    have "- int n sdiv int k = - int (n div k)"
      using that sdiv_nonpos [of "- int n" "int k"] by (simp add: zdiv_int)
    then show ?thesis using smod_nonpos [of "- int (n div k)" 10] by (simp add: zmod_int)
  qed
  have u: "- int n smod 10 = - int (n mod 10)"
    using smod_nonpos [of "- int n" 10] by (simp add: zmod_int)
  have "digits_4 N =
     (word_of_int (- int (n div 1000 mod 10)), word_of_int (- int (n div 100 mod 10)),
      word_of_int (- int (n div 10 mod 10)), word_of_int (- int (n mod 10)))"
    unfolding digits_4_sint N using d [of 1000] d [of 100] d [of 10] u by simp
  then show ?thesis
    by (simp add: decimal_4_def n_def [symmetric])
qed

lemma unat_neg_digit:
  assumes "0 < a" "a \<le> 9"
  shows "unat (- of_nat a :: 16 word) = 65536 - a"
proof -
  have "(- of_nat a :: 16 word) = word_of_int (- int a)"
    by simp
  then have "unat (- of_nat a :: 16 word) = nat ((- int a) mod 65536)"
    by (simp only: unsigned_of_int take_bit_eq_mod) simp
  also have "(- int a) mod 65536 = 65536 - int a"
    using assms by (simp add: zmod_zminus1_eq_if)
  finally show ?thesis by simp
qed

lemma write_4digit_neg:
  assumes "sint N < 0" "\<not> 10000 dvd sint N"
  shows "write_4digit N delay = Inl Index_out_of_bounds"
    and "\<exists>d_1 d_2 d_3 d_4. digits_4 N = (d_1, d_2, d_3, d_4)
           \<and> (65527 \<le> unat d_1 \<or> 65527 \<le> unat d_2 \<or> 65527 \<le> unat d_3 \<or> 65527 \<le> unat d_4)"
proof -
  obtain a b c d where dec: "decimal_4 (nat (- sint N)) = (a, b, c, d)"
    by (cases "decimal_4 (nat (- sint N))")
  from decimal_4_bounds [OF dec] have le: "a \<le> 9" "b \<le> 9" "c \<le> 9" "d \<le> 9"
    by simp_all
  have "\<not> 10000 dvd nat (- sint N)"
  proof
    assume "10000 dvd nat (- sint N)"
    then obtain q where "nat (- sint N) = 10000 * q" ..
    then have "- sint N = int (10000 * q)" using assms(1) by linarith
    then have "sint N = 10000 * (- int q)" by simp
    then have "10000 dvd sint N" by (rule dvdI)
    with assms(2) show False ..
  qed
  then have "(a, b, c, d) \<noteq> (0, 0, 0, 0)"
    using decimal_4_zero [of "nat (- sint N)"] dec by simp
  then have nz: "0 < a \<or> 0 < b \<or> 0 < c \<or> 0 < d" by auto
  have dg: "digits_4 N = (- of_nat a, - of_nat b, - of_nat c, - of_nat d)"
    by (simp add: digits_4_neg [OF assms(1)] dec)
  have big: "65527 \<le> unat (- of_nat a :: 16 word) \<or> 65527 \<le> unat (- of_nat b :: 16 word)
      \<or> 65527 \<le> unat (- of_nat c :: 16 word) \<or> 65527 \<le> unat (- of_nat d :: 16 word)"
    using nz le by (auto simp: unat_neg_digit)
  then show "\<exists>d_1 d_2 d_3 d_4. digits_4 N = (d_1, d_2, d_3, d_4)
           \<and> (65527 \<le> unat d_1 \<or> 65527 \<le> unat d_2 \<or> 65527 \<le> unat d_3 \<or> 65527 \<le> unat d_4)"
    unfolding dg by blast
  from big have "11 \<le> unat (- of_nat a :: 16 word) \<or> 11 \<le> unat (- of_nat b :: 16 word)
      \<or> 11 \<le> unat (- of_nat c :: 16 word) \<or> 11 \<le> unat (- of_nat d :: 16 word)"
    by linarith
  then show "write_4digit N delay = Inl Index_out_of_bounds"
    unfolding write_4digit_def dg inject_7seg_WAIT_TIME
    using inject_loop_Inl [of "- of_nat a" "- of_nat b" "- of_nat c" "- of_nat d" 79]
    by simp
qed

text \<open>
  Claim C2 says that \<open>write_4digit\<close> yields, for every integer \<open>N\<close> including the
  negative ones, four digit values in \<open>[0, 9]\<close> equal to the decimal digits of \<open>\<bar>N\<bar>\<close>. The
  header of main.c expects as much (a negative temperature is shown without its sign).
  At \<open>N = -5\<close> the code computes the remainder \<open>-5\<close>, stores it in an \<open>unsigned int\<close> as
  65531, and reads \<open>index[65531]\<close>, past the end of the table; the digits of \<open>\<bar>N\<bar>\<close> are
  \<open>(0, 0, 0, 5)\<close>.
\<close>

theorem write_4digit_minus_5:
  "digits_4 (- 5) = (0, 0, 0, 65531)
   \<and> write_4digit (- 5) WAIT_TIME = Inl Index_out_of_bounds
   \<and> decimal_4 (nat \<bar>sint (- 5 :: c_int)\<bar>) = (0, 0, 0, 5)"
proof -
  have neg: "sint (- 5 :: c_int) < 0" by simp
  have a: "digits_4 (- 5) = (0, 0, 0, 65531)"
    by (simp add: digits_4_neg [OF neg] decimal_4_def)
  have b: "write_4digit (- 5) WAIT_TIME = Inl Index_out_of_bounds"
    by (rule write_4digit_neg(1)) simp_all
  have c: "decimal_4 (nat \<bar>sint (- 5 :: c_int)\<bar>) = (0, 0, 0, 5)"
    by (simp add: decimal_4_def)
  from a b c show ?thesis by simp
qed

lemma mV_500: "dbl_to_int (dbl_mul (dbl_of_int 500) VOLTAGE_COEFF) = Inr 1480"
  by code_simp

text \<open>
  Claim C8. A raw sample of 500 times the coefficient 2.96, in \<open>double\<close> arithmetic and
  then truncated to \<open>int\<close>, is 1480; \<open>write_4digit\<close> splits 1480 into the digit values
  \<open>(1, 4, 8, 0)\<close> and shows them, the 1 on the leftmost position; and the printing code
  of the main loop, in the millivolt build of main.c, does both.
\<close>

theorem sample_500_shows_1480:
  "dbl_to_int (dbl_mul (dbl_of_int 500) VOLTAGE_COEFF) = Inr 1480
   \<and> digits_4 1480 = (1, 4, 8, 0)
   \<and> write_4digit 1480 WAIT_TIME = Inr (display_of (1, 4, 8, 0))
   \<and> print_7seg (source_config dc) (dbl_mul (dbl_of_int 500) VOLTAGE_COEFF)
       = Inr (display_of (1, 4, 8, 0))"
proof -
  have nn: "0 \<le> sint (1480 :: c_int)" by simp
  have dec: "decimal_4 1480 = (1, 4, 8, 0)"
    by (simp add: decimal_4_def)
  have a: "digits_4 1480 = (1, 4, 8, 0)"
    by (simp add: digits_4_nonneg [OF nn] dec)
  have b: "write_4digit 1480 WAIT_TIME = Inr (display_of (1, 4, 8, 0))"
    by (simp add: write_4digit_nonneg [OF nn] dec)
  have c: "print_7seg (source_config dc) (dbl_mul (dbl_of_int 500) VOLTAGE_COEFF)
       = Inr (display_of (1, 4, 8, 0))"
    by (simp add: print_7seg_def source_config_def mV_500 b)
  from mV_500 a b c show ?thesis by simp
qed

text \<open>
  Claim C6. For every nonnegative \<open>N\<close> that needs more than four decimal digits
  (\<open>N \<ge> 10000\<close>), \<open>write_4digit\<close> returns normally and shows exactly the four digits of
  \<open>N mod 10000\<close>, as it does for the number \<open>N mod 10000\<close> itself; it shows \<open>9999\<close> only if
  these low-order digits are \<open>9999\<close>.
\<close>

theorem write_4digit_low_order:
  assumes "10000 \<le> sint N"
  shows "write_4digit N delay = Inr (display_of (decimal_4 (nat (sint N) mod 10000)))
         \<and> write_4digit N delay = write_4digit (word_of_int (sint N mod 10000)) delay
         \<and> (digits_4 N = (9, 9, 9, 9) \<longleftrightarrow> sint N mod 10000 = 9999)"
proof -
  define n where "n = nat (sint N)"
  have nn: "0 \<le> sint N" using assms by simp
  have N: "sint N = int n" using nn by (simp add: n_def)
  have a: "write_4digit N delay = Inr (display_of (decimal_4 (n mod 10000)))"
    by (simp add: write_4digit_nonneg [OF nn] decimal_4_mod n_def)
  have low: "sint (word_of_int (sint N mod 10000) :: c_int) = int (n mod 10000)"
    unfolding N by (simp add: sint_word16 zmod_int)
  then have nn': "0 \<le> sint (word_of_int (sint N mod 10000) :: c_int)" by simp
  have b: "write_4digit (word_of_int (sint N mod 10000)) delay
      = Inr (display_of (decimal_4 (n mod 10000)))"
    by (simp add: write_4digit_nonneg [OF nn'] low)
  obtain a' b' c' d' where dec: "decimal_4 n = (a', b', c', d')"
    by (cases "decimal_4 n")
  from decimal_4_bounds [OF dec] have le: "a' \<le> 9" "b' \<le> 9" "c' \<le> 9" "d' \<le> 9"
    by simp_all
  have inj: "(of_nat k :: c_int) = 9 \<longleftrightarrow> k = 9" if "k \<le> 9" for k
    using that word_of_nat_eq_iff [where ?'a = 16, of k 9]
    by (simp add: take_bit_nat_eq_self)
  have "digits_4 N = (9, 9, 9, 9) \<longleftrightarrow> decimal_4 n = (9, 9, 9, 9)"
    using digits_4_nonneg [OF nn] le by (simp add: dec n_def [symmetric] inj)
  also have "\<dots> \<longleftrightarrow> n mod 10000 = 9999" by (rule decimal_4_nines)
  also have "\<dots> \<longleftrightarrow> int (n mod 10000) = 9999"
    by (metis of_nat_eq_iff of_nat_numeral)
  also have "\<dots> \<longleftrightarrow> sint N mod 10000 = 9999"
    unfolding N by (simp add: zmod_int)
  finally have c: "digits_4 N = (9, 9, 9, 9) \<longleftrightarrow> sint N mod 10000 = 9999" .
  from a b c show ?thesis by (simp add: n_def)
qed

theorem write_4digit_low_order_witness:
  "10000 \<le> sint (12345 :: c_int)
   \<and> write_4digit 12345 WAIT_TIME = Inr (display_of (2, 3, 4, 5))
   \<and> write_4digit 12345 WAIT_TIME = write_4digit 2345 WAIT_TIME
   \<and> digits_4 12345 \<noteq> (9, 9, 9, 9)"
proof -
  have h: "10000 \<le> sint (12345 :: c_int)" by simp
  have dec: "decimal_4 2345 = (2, 3, 4, 5)"
    by (simp add: decimal_4_def)
  note t = write_4digit_low_order [OF h, of WAIT_TIME]
  have a: "write_4digit 12345 WAIT_TIME = Inr (display_of (2, 3, 4, 5))"
    using t [THEN conjunct1] by (simp add: dec)
  have b: "write_4digit 12345 WAIT_TIME = write_4digit 2345 WAIT_TIME"
    using t [THEN conjunct2, THEN conjunct1] by simp
  have c: "digits_4 12345 \<noteq> (9, 9, 9, 9)"
    using t [THEN conjunct2, THEN conjunct2] by simp
  from h a b c show ?thesis by (simp only: simp_thms)
qed


text \<open>
  Claim C9 says that for every negative \<open>N\<close> a remainder is negative and the table is read
  out of bounds. \<open>N = -10000\<close> is negative, all four remainders are 0, and the four reads
  are \<open>index[0]\<close>.
\<close>

theorem negative_multiple_in_bounds:
  "sint (- 10000 :: c_int) < 0
   \<and> digits_4 (- 10000) = (0, 0, 0, 0)
   \<and> write_4digit (- 10000) WAIT_TIME = Inr (display_of (0, 0, 0, 0))"
proof -
  have neg: "sint (- 10000 :: c_int) < 0" by simp
  have a: "digits_4 (- 10000) = (0, 0, 0, 0)"
    by (simp add: digits_4_neg [OF neg] decimal_4_def)
  have i: "index_at 0 = Inr (index ! 0)"
    using index_at_small [of 0] by simp
  have b: "write_4digit (- 10000) WAIT_TIME = Inr (display_of (0, 0, 0, 0))"
    unfolding write_4digit_def a inject_7seg_WAIT_TIME
    by (simp add: inject_loop_Inr [OF i i i i] display_of_def)
  from neg a b show ?thesis by (simp only: simp_thms)
qed

lemma write_4digit_neg_multiple:
  assumes "sint N < 0" "10000 dvd sint N"
  shows "digits_4 N = (0, 0, 0, 0)"
    and "write_4digit N delay = Inr (display_of (0, 0, 0, 0))"
proof -
  have "10000 dvd nat (- sint N)"
  proof -
    from assms(2) obtain q where q: "sint N = 10000 * q" ..
    with assms(1) have "q < 0" by simp
    then have "nat (- sint N) = 10000 * nat (- q)" using q by simp
    then show ?thesis by (rule dvdI)
  qed
  then have dec: "decimal_4 (nat (- sint N)) = (0, 0, 0, 0)"
    by (simp add: decimal_4_zero)
  show a: "digits_4 N = (0, 0, 0, 0)"
    by (simp add: digits_4_neg [OF assms(1)] dec)
  have i: "index_at 0 = Inr (index ! 0)"
    using index_at_small [of 0] by simp
  show "write_4digit N delay = Inr (display_of (0, 0, 0, 0))"
    unfolding write_4digit_def a inject_7seg_WAIT_TIME
    by (simp add: inject_loop_Inr [OF i i i i] display_of_def)
qed

lemma digits_4_nonneg_bounds:
  assumes "0 \<le> sint N"
  shows "\<exists>d_1 d_2 d_3 d_4. digits_4 N = (d_1, d_2, d_3, d_4)
           \<and> unat d_1 \<le> 9 \<and> unat d_2 \<le> 9 \<and> unat d_3 \<le> 9 \<and> unat d_4 \<le> 9
           \<and> index_at d_1 = Inr (index ! unat d_1) \<and> index_at d_2 = Inr (index ! unat d_2)
           \<and> index_at d_3 = Inr (index ! unat d_3) \<and> index_at d_4 = Inr (index ! unat d_4)"
proof -
  obtain a b c d where dec: "decimal_4 (nat (sint N)) = (a, b, c, d)"
    by (cases "decimal_4 (nat (sint N))")
  from decimal_4_bounds [OF dec] have le: "a \<le> 9" "b \<le> 9" "c \<le> 9" "d \<le> 9"
    by simp_all
  have u: "unat (of_nat k :: c_uint) = k" if "k \<le> 9" for k
    using that by (simp add: unsigned_of_nat take_bit_nat_eq_self)
  have "digits_4 N = (of_nat a, of_nat b, of_nat c, of_nat d)"
    by (simp add: digits_4_nonneg [OF assms] dec)
  then show ?thesis
    using le by (simp add: u index_at_def length_index)
qed

text \<open>
  Claim C9, amended. For every nonnegative \<open>N\<close> the four digit values lie in \<open>[0, 9]\<close> and
  every read of the 11-entry table is in bounds. For every negative \<open>N\<close> that is not a
  multiple of 10000, at least one digit value is a negative remainder converted to
  \<open>unsigned int\<close>, hence at least 65527, and the table is read out of bounds. For the
  negative multiples of 10000 all four digit values are 0 and the reads are in bounds.
\<close>

theorem write_4digit_table_access:
  "(0 \<le> sint N \<longrightarrow>
      (\<exists>d_1 d_2 d_3 d_4. digits_4 N = (d_1, d_2, d_3, d_4)
         \<and> unat d_1 \<le> 9 \<and> unat d_2 \<le> 9 \<and> unat d_3 \<le> 9 \<and> unat d_4 \<le> 9
         \<and> index_at d_1 = Inr (index ! unat d_1) \<and> index_at d_2 = Inr (index ! unat d_2)
         \<and> index_at d_3 = Inr (index ! unat d_3) \<and> index_at d_4 = Inr (index ! unat d_4))
      \<and> write_4digit N delay = Inr (display_of (decimal_4 (nat (sint N)))))
   \<and> (sint N < 0 \<and> \<not> 10000 dvd sint N \<longrightarrow>
      (\<exists>d_1 d_2 d_3 d_4. digits_4 N = (d_1, d_2, d_3, d_4)
         \<and> (65527 \<le> unat d_1 \<or> 65527 \<le> unat d_2 \<or> 65527 \<le> unat d_3 \<or> 65527 \<le> unat d_4))
      \<and> write_4digit N delay = Inl Index_out_of_bounds)
   \<and> (sint N < 0 \<and> 10000 dvd sint N \<longrightarrow>
      digits_4 N = (0, 0, 0, 0)
      \<and> write_4digit N delay = Inr (display_of (0, 0, 0, 0)))"
  using digits_4_nonneg_bounds [of N] write_4digit_nonneg [of N delay]
    write_4digit_neg(1) [of N delay] write_4digit_neg(2) [of N]
    write_4digit_neg_multiple(1) [of N] write_4digit_neg_multiple(2) [of N delay]
  by blast

theorem write_4digit_table_access_witness:
  "0 \<le> sint (1234 :: c_int)
   \<and> digits_4 1234 = (1, 2, 3, 4)
   \<and> write_4digit 1234 WAIT_TIME = Inr (display_of (1, 2, 3, 4))
   \<and> sint (- 25 :: c_int) < 0 \<and> \<not> 10000 dvd sint (- 25 :: c_int)
   \<and> write_4digit (- 25) WAIT_TIME = Inl Index_out_of_bounds
   \<and> sint (- 20000 :: c_int) < 0 \<and> 10000 dvd sint (- 20000 :: c_int)
   \<and> write_4digit (- 20000) WAIT_TIME = Inr (display_of (0, 0, 0, 0))"
proof -
  have h1: "0 \<le> sint (1234 :: c_int)" by simp
  have h2: "sint (- 25 :: c_int) < 0 \<and> \<not> 10000 dvd sint (- 25 :: c_int)" by simp
  have h3: "sint (- 20000 :: c_int) < 0 \<and> 10000 dvd sint (- 20000 :: c_int)" by simp
  have dec: "decimal_4 1234 = (1, 2, 3, 4)" by (simp add: decimal_4_def)
  have a: "write_4digit 1234 WAIT_TIME = Inr (display_of (1, 2, 3, 4))"
    using write_4digit_table_access [of 1234 WAIT_TIME] h1 by (simp add: dec)
  have d: "digits_4 1234 = (1, 2, 3, 4)"
    by (simp add: digits_4_nonneg [OF h1] dec)
  have b: "write_4digit (- 25) WAIT_TIME = Inl Index_out_of_bounds"
    using write_4digit_table_access [of "- 25" WAIT_TIME] h2 by simp
  have c: "write_4digit (- 20000) WAIT_TIME = Inr (display_of (0, 0, 0, 0))"
    using write_4digit_table_access [of "- 20000" WAIT_TIME] h3 by simp
  from h1 h2 h3 a b c d show ?thesis by (simp only: simp_thms)
qed

section \<open>The main loop\<close>

subsection \<open>Which code touches which pin\<close>

lemma display_event_quiet: "display_event e \<Longrightarrow> \<not> drives_buzzer e \<and> \<not> adc_event e"
  by (cases e) simp_all

lemma display_events_quiet:
  "list_all display_event es \<Longrightarrow> \<not> buzzer_invoked es \<and> \<not> samples_taken es"
  by (induction es) (auto simp: buzzer_invoked_def samples_taken_def dest: display_event_quiet)

lemma fill_lower_display: "list_all display_event (fill_lower n)"
  by (induction n) simp_all

lemma fill_upper_display: "list_all display_event (fill_upper n pos)"
  by (induction n arbitrary: pos) simp_all

lemma write_message_display: "list_all display_event (write_message n data)"
  by (induction n arbitrary: data) (simp_all add: Let_def)

lemma write_7seg_display: "list_all display_event (write_7seg data pos)"
  by (simp add: write_7seg_def fill_lower_display fill_upper_display write_message_display)

lemma refresh_display: "list_all display_event (refresh c_1 c_2 c_3 c_4)"
  by (simp add: refresh_def write_7seg_display)

lemma inject_loop_display:
  "inject_loop n d_1 d_2 d_3 d_4 = Inr es \<Longrightarrow> list_all display_event es"
proof (induction n arbitrary: es)
  case 0
  then show ?case by simp
next
  case (Suc n)
  then show ?case
    by (auto simp: write_7seg_display split: if_splits sum.splits)
qed

lemma inject_7seg_display:
  "inject_7seg d_1 d_2 d_3 d_4 delay = Inr es \<Longrightarrow> list_all display_event es"
  by (auto simp: inject_7seg_def split: sum.splits dest: inject_loop_display)

lemma write_4digit_display: "write_4digit number delay = Inr es \<Longrightarrow> list_all display_event es"
  by (auto simp: write_4digit_def split: prod.splits dest: inject_7seg_display)

lemma print_7seg_display: "print_7seg cfg v = Inr es \<Longrightarrow> list_all display_event es"
  by (auto simp: print_7seg_def split: if_splits sum.splits dest: write_4digit_display)

lemma display_of_display: "list_all display_event (display_of ds)"
  by (cases ds) (simp add: display_of_def list_all_iff refresh_display [unfolded list_all_iff])

lemma button_hold_quiet:
  "button_hold button rs = Inr es \<Longrightarrow> \<not> buzzer_invoked es \<and> \<not> samples_taken es"
proof (induction button rs arbitrary: es rule: button_hold.induct)
  case (1 button)
  then show ?case by (simp add: buzzer_invoked_def samples_taken_def split: if_splits)
next
  case (2 button r rs)
  then show ?case
    by (auto simp: buzzer_invoked_def samples_taken_def split: if_splits sum.splits)
qed

lemma button_sense_quiet:
  "button_sense ctr reads = Inr (ctr', es) \<Longrightarrow> \<not> buzzer_invoked es \<and> \<not> samples_taken es"
  by (auto simp: button_sense_def Let_def split: list.splits sum.splits dest: button_hold_quiet)

lemma acquire_quiet: "acquire busy = Inr es \<Longrightarrow> \<not> buzzer_invoked es"
  by (auto simp: acquire_def buzzer_invoked_def bit_simps split: sum.splits)

lemma BEEP_TIME_MOD_value: "BEEP_TIME_MOD = 37"
  by (simp add: BEEP_TIME_MOD_def BEEP_TIME_def SOUND_DELAY_def c_div_def sdiv_nonneg)

lemma buzzer_invoked_buzz: "buzzer_invoked buzz"
proof -
  have "nat (sint BEEP_TIME_MOD) = Suc 36" by (simp add: BEEP_TIME_MOD_value)
  then have "buzz = buzz_loop (Suc 36)" by (simp only: buzz_def)
  then obtain rest where b: "buzz = Or_P1OUT 0x41 # rest"
    by (simp only: buzz_loop.simps append_Cons)
  have p: "bit (0x41 :: 8 word) 6" by code_simp
  show ?thesis unfolding buzzer_invoked_def b using p by simp
qed

lemma buzzer_invoked_append [simp]:
  "buzzer_invoked (xs @ ys) \<longleftrightarrow> buzzer_invoked xs \<or> buzzer_invoked ys"
  by (simp add: buzzer_invoked_def)

lemma samples_taken_append [simp]:
  "samples_taken (xs @ ys) \<longleftrightarrow> samples_taken xs \<or> samples_taken ys"
  by (simp add: samples_taken_def)

lemma buzzer_invoked_Nil [simp]: "\<not> buzzer_invoked []"
  by (simp add: buzzer_invoked_def)

subsection \<open>The shape of a pass\<close>

text \<open>\<open>button_ctr % 3\<close> is computed in \<open>unsigned int\<close>; the three modes cover all values.\<close>

lemma mod_3_cases: "(c :: c_uint) mod 3 = 0 \<or> c mod 3 = 1 \<or> c mod 3 = 2"
proof -
  have "unat (c mod 3) < 3" by (simp add: unat_mod)
  then have "unat (c mod 3) = 0 \<or> unat (c mod 3) = 1 \<or> unat (c mod 3) = 2" by linarith
  then show ?thesis by (auto simp: word_unat_eq_iff)
qed

lemma iteration_off:
  assumes "button_sense (button_ctr s) (P2IN inp) = Inr (ctr, held)" "ctr mod 3 = 2"
  shows "iteration cfg inp s = Inr (s\<lparr>button_ctr := ctr\<rparr>, held @ display_of (10, 10, 10, 10))"
proof -
  have i: "index_at EMPTY_X = Inr (index ! 10)"
    using index_at_small [of 10] by (simp add: EMPTY_X_def)
  have "inject_7seg EMPTY_X EMPTY_X EMPTY_X EMPTY_X WAIT_TIME = Inr (display_of (10, 10, 10, 10))"
    by (simp add: inject_7seg_WAIT_TIME inject_loop_Inr [OF i i i i] display_of_def)
  then show ?thesis
    by (simp add: iteration_def assms)
qed

lemma iteration_pot:
  assumes "button_sense (button_ctr s) (P2IN inp) = Inr (ctr, held)" "ctr mod 3 = 1"
    and "acquire (ADC10_busy inp) = Inr sampled"
    and "print_7seg cfg (dbl_mul (dbl_of_int (p1_samples_0 inp)) VOLTAGE_COEFF) = Inr shown"
  shows "iteration cfg inp s = Inr (s\<lparr>button_ctr := ctr\<rparr>, held @ sampled @ shown)"
  by (simp add: iteration_def assms Let_def)

lemma iteration_normal:
  assumes "button_sense (button_ctr s) (P2IN inp) = Inr (ctr, held)" "ctr mod 3 = 0"
    and "acquire (ADC10_busy inp) = Inr sampled"
    and "threshold_control cfg (p1_samples_2 inp) (p1_samples_0 inp) (buzz_ctr s) = (buzzed, ctr_b)"
    and "print_7seg cfg (dbl_mul (dbl_of_int (p1_samples_2 inp)) VOLTAGE_COEFF) = Inr shown"
  shows "iteration cfg inp s
    = Inr (s\<lparr>buzz_ctr := ctr_b, button_ctr := ctr\<rparr>, held @ sampled @ buzzed @ shown)"
  by (simp add: iteration_def assms Let_def)

lemma iteration_InrE:
  assumes "iteration cfg inp s = Inr (s', es)"
  obtains
    (off) held where
      "button_sense (button_ctr s) (P2IN inp) = Inr (button_ctr s', held)"
      "button_ctr s' mod 3 = 2"
      "s' = s\<lparr>button_ctr := button_ctr s'\<rparr>"
      "es = held @ display_of (10, 10, 10, 10)"
  | (pot) held sampled shown where
      "button_sense (button_ctr s) (P2IN inp) = Inr (button_ctr s', held)"
      "button_ctr s' mod 3 = 1"
      "acquire (ADC10_busy inp) = Inr sampled"
      "print_7seg cfg (dbl_mul (dbl_of_int (p1_samples_0 inp)) VOLTAGE_COEFF) = Inr shown"
      "s' = s\<lparr>button_ctr := button_ctr s'\<rparr>"
      "es = held @ sampled @ shown"
  | (normal) held sampled buzzed shown where
      "button_sense (button_ctr s) (P2IN inp) = Inr (button_ctr s', held)"
      "button_ctr s' mod 3 = 0"
      "acquire (ADC10_busy inp) = Inr sampled"
      "threshold_control cfg (p1_samples_2 inp) (p1_samples_0 inp) (buzz_ctr s)
         = (buzzed, buzz_ctr s')"
      "print_7seg cfg (dbl_mul (dbl_of_int (p1_samples_2 inp)) VOLTAGE_COEFF) = Inr shown"
      "s' = s\<lparr>buzz_ctr := buzz_ctr s', button_ctr := button_ctr s'\<rparr>"
      "es = held @ sampled @ buzzed @ shown"
proof -
  from assms obtain ctr held where bs: "button_sense (button_ctr s) (P2IN inp) = Inr (ctr, held)"
    by (auto simp: iteration_def split: sum.splits)
  consider "ctr mod 3 = 2" | "ctr mod 3 = 1" | "ctr mod 3 = 0"
    using mod_3_cases [of ctr] by blast
  then show thesis
  proof cases
    case 1
    from iteration_off [OF bs 1, of cfg] assms
    have "s' = s\<lparr>button_ctr := ctr\<rparr>" "es = held @ display_of (10, 10, 10, 10)"
      by simp_all
    with bs 1 show thesis by (intro off [of held]) simp_all
  next
    case 2
    from assms bs 2 obtain sampled where ac: "acquire (ADC10_busy inp) = Inr sampled"
      by (auto simp: iteration_def split: sum.splits)
    from assms bs 2 ac obtain shown where
      pr: "print_7seg cfg (dbl_mul (dbl_of_int (p1_samples_0 inp)) VOLTAGE_COEFF) = Inr shown"
      by (auto simp: iteration_def Let_def split: sum.splits)
    from iteration_pot [OF bs 2 ac pr] assms
    have "s' = s\<lparr>button_ctr := ctr\<rparr>" "es = held @ sampled @ shown"
      by simp_all
    with bs 2 ac pr show thesis by (intro pot [of held sampled shown]) simp_all
  next
    case 3
    from assms bs 3 obtain sampled where ac: "acquire (ADC10_busy inp) = Inr sampled"
      by (auto simp: iteration_def split: sum.splits)
    obtain buzzed ctr_b where
      tc: "threshold_control cfg (p1_samples_2 inp) (p1_samples_0 inp) (buzz_ctr s)
         = (buzzed, ctr_b)"
      by (cases "threshold_control cfg (p1_samples_2 inp) (p1_samples_0 inp) (buzz_ctr s)")
    from assms bs 3 ac tc obtain shown where
      pr: "print_7seg cfg (dbl_mul (dbl_of_int (p1_samples_2 inp)) VOLTAGE_COEFF) = Inr shown"
      by (auto simp: iteration_def Let_def split: sum.splits)
    from iteration_normal [OF bs 3 ac tc pr] assms
    have "s' = s\<lparr>buzz_ctr := ctr_b, button_ctr := ctr\<rparr>" "es = held @ sampled @ buzzed @ shown"
      by simp_all
    with bs 3 ac tc pr show thesis by (intro normal [of held sampled buzzed shown]) simp_all
  qed
qed

subsection \<open>A pass returns\<close>

text \<open>
  The two decimal constants as binary64 values: \<open>2.96\<close> is \<open>0x4007AE147AE147AE\<close> and
  \<open>0.4\<close> is \<open>0x3FD999999999999A\<close>.
\<close>

lemma VOLTAGE_COEFF_value: "VOLTAGE_COEFF = (6665327448508334, - 51)"
  by code_simp

lemma dwell_coefficient: "dbl_const 4 10 = (7205759403792794, - 54)"
  by code_simp

text \<open>
  With a 24-bit significand, the \<open>double\<close> of some MSP430 compilers, the two values this
  development computes with come out the same.
\<close>

lemma single_precision_agrees:
  "dbl_to_int (fl_ratio 24 (500 * dbl_num (fl_ratio 24 296 100)) (dbl_den (fl_ratio 24 296 100)))
     = Inr 1480"
  "dbl_to_int (fl_ratio 24 (200 * dbl_num (fl_ratio 24 4 10)) (dbl_den (fl_ratio 24 4 10)))
     = Inr 80"
  by code_simp+

lemma round_half_even_bounds:
  "n div d \<le> round_half_even n d \<and> round_half_even n d \<le> n div d + 1"
  by (simp add: round_half_even_def Let_def)

lemma int_div_less:
  fixes a b d :: int
  assumes "0 < d" "a < b * d"
  shows "a div d < b"
proof -
  have "a div d * d = a - a mod d" by (simp add: minus_mod_eq_div_mult)
  moreover have "0 \<le> a mod d" using assms(1) by simp
  ultimately have "a div d * d < b * d" using assms(2) by simp
  then show ?thesis using assms(1) by (simp add: mult_less_cancel_right)
qed

lemma int_less_succ_div:
  fixes a d :: int
  assumes "0 < d"
  shows "a < (a div d + 1) * d"
proof -
  have e: "a div d * d = a - a mod d" by (simp add: minus_mod_eq_div_mult)
  have "a mod d < d" using assms by simp
  then show ?thesis by (simp add: distrib_right e)
qed

text \<open>Truncating a rounded quotient loses at most the rounding.\<close>

lemma div_rounded:
  fixes n d m :: int and k :: nat
  assumes "0 < d" "(n * 2 ^ k) div d \<le> m" "m \<le> (n * 2 ^ k) div d + 1"
  shows "n div d \<le> m div 2 ^ k \<and> m div 2 ^ k \<le> n div d + 1"
proof -
  have lo: "(n * 2 ^ k) div d div 2 ^ k = n div d"
  proof -
    have "(n * 2 ^ k) div d div 2 ^ k = (n * 2 ^ k) div (d * 2 ^ k)"
      by (simp add: zdiv_zmult2_eq)
    also have "\<dots> = n div d" by simp
    finally show ?thesis .
  qed
  have "n * 2 ^ k < (n div d + 1) * 2 ^ k * d"
    using int_less_succ_div [OF assms(1), of n] by (simp add: mult.assoc mult.left_commute mult.commute)
  then have "(n * 2 ^ k) div d < (n div d + 1) * 2 ^ k"
    using assms(1) by (rule int_div_less [rotated])
  then have "m \<le> (n div d + 1) * 2 ^ k" using assms(3) by simp
  then have "m div 2 ^ k \<le> (n div d + 1) * 2 ^ k div 2 ^ k"
    by (rule zdiv_mono1) simp
  then have hi: "m div 2 ^ k \<le> n div d + 1" by simp
  have "(n * 2 ^ k) div d div 2 ^ k \<le> m div 2 ^ k"
    using assms(2) by (rule zdiv_mono1) simp
  with lo hi show ?thesis by simp
qed


text \<open>
  A positive quotient whose rounded significand keeps fraction bits (exponent at most 0)
  converts to \<open>int\<close> as its integer part, or as the next integer when the rounding
  carries into it.
\<close>

lemma dbl_to_int_fl_ratio:
  assumes "0 < n" "0 < d" "bitlen n - bitlen d - int p + 1 \<le> 0" "n div d + 1 \<le> 32767"
  shows "\<exists>t. dbl_to_int (fl_ratio p n d) = Inr (word_of_int t)
           \<and> n div d \<le> t \<and> t \<le> n div d + 1"
proof -
  define e0 where "e0 = bitlen n - bitlen d - int p"
  define e where "e = (if n * 2 ^ nat (- e0) < 2 ^ p * (d * 2 ^ nat e0) then e0 else e0 + 1)"
  define k where "k = nat (- e)"
  define m where "m = round_half_even (n * 2 ^ k) d"
  have e: "e \<le> 0" using assms(3) by (simp add: e_def e0_def)
  then have ne: "nat e = 0" by simp
  have "fl_ratio p n d = (round_half_even (n * 2 ^ nat (- e)) (d * 2 ^ nat e), e)"
    using assms(1) unfolding fl_ratio_def Let_def e_def e0_def by simp
  then have fl: "fl_ratio p n d = (m, e)"
    by (simp add: m_def k_def ne)
  have mb: "(n * 2 ^ k) div d \<le> m" "m \<le> (n * 2 ^ k) div d + 1"
    using round_half_even_bounds [of "n * 2 ^ k" d] by (simp_all add: m_def)
  have "0 \<le> (n * 2 ^ k) div d"
    using assms(1,2) by (simp add: pos_imp_zdiv_nonneg_iff)
  with mb(1) have m0: "0 \<le> m" by simp
  define t where "t = m div 2 ^ k"
  have tb: "n div d \<le> t" "t \<le> n div d + 1"
    using div_rounded [OF assms(2) mb] by (simp_all add: t_def)
  have "0 \<le> n div d" using assms(1,2) by (simp add: pos_imp_zdiv_nonneg_iff)
  with tb assms(4) have range: "- 32768 \<le> t" "t \<le> 32767" by simp_all
  have "sgn m * (\<bar>m\<bar> div 2 ^ k) = t"
    using m0 by (cases "m = 0") (simp_all add: t_def)
  then have "dbl_to_int (m, e) = Inr (word_of_int t)"
    using range ne by (simp add: dbl_to_int_def dbl_num_def dbl_den_def k_def [symmetric])
  with fl tb show ?thesis by auto
qed

lemma mV_10bit:
  assumes "0 \<le> sint r" "sint r \<le> 1023"
  shows "\<exists>v. dbl_to_int (dbl_mul (dbl_of_int r) VOLTAGE_COEFF) = Inr v
           \<and> 0 \<le> sint v \<and> sint v \<le> 3029"
proof (cases "sint r = 0")
  case True
  then have "dbl_mul (dbl_of_int r) VOLTAGE_COEFF = (0, 0)"
    by (simp add: dbl_mul_def dbl_of_int_def dbl_num_def fl_ratio_def)
  then have "dbl_to_int (dbl_mul (dbl_of_int r) VOLTAGE_COEFF) = Inr 0"
    by (simp add: dbl_to_int_def dbl_num_def dbl_den_def)
  then show ?thesis by simp
next
  case False
  define n where "n = sint r * 6665327448508334"
  have mul: "dbl_mul (dbl_of_int r) VOLTAGE_COEFF = fl_ratio 53 n (2 ^ 51)"
    by (simp add: dbl_mul_def dbl_of_int_def VOLTAGE_COEFF_value dbl_num_def dbl_den_def
        DBL_MANT_DIG_def n_def)
  have pos: "0 < n" using assms(1) False by (simp add: n_def)
  have le: "n \<le> 1023 * 6665327448508334"
    using assms(2) by (simp add: n_def)
  then have "n < 2 ^ 63" by simp
  then have bn: "bitlen n \<le> 63" by (simp add: bitlen_le_iff_power)
  have bd: "bitlen (2 ^ 51) = 52"
    using bitlen_twopow_add_eq [of 0 51] by simp
  have q: "n div 2 ^ 51 \<le> 3028"
  proof -
    have "n div 2 ^ 51 \<le> (1023 * 6665327448508334) div 2 ^ 51"
      using le by (rule zdiv_mono1) simp
    then show ?thesis by simp
  qed
  from dbl_to_int_fl_ratio [of n "2 ^ 51" 53] pos bn bd q
  obtain t where t: "dbl_to_int (fl_ratio 53 n (2 ^ 51)) = Inr (word_of_int t)"
    "n div 2 ^ 51 \<le> t" "t \<le> n div 2 ^ 51 + 1"
    by auto
  have "0 \<le> n div 2 ^ 51" using pos by (simp add: pos_imp_zdiv_nonneg_iff)
  with t q have "0 \<le> t" "t \<le> 3029" by simp_all
  then have "sint (word_of_int t :: c_int) = t" by (simp add: sint_word16)
  with t(1) mul \<open>0 \<le> t\<close> \<open>t \<le> 3029\<close> show ?thesis by simp
qed

lemma sint_10bit:
  assumes "(r :: c_uint) \<le> 1023"
  shows "0 \<le> sint r \<and> sint r \<le> 1023"
proof -
  have u: "uint r \<le> 1023" using assms by (simp add: word_le_def)
  have "sint r = signed_take_bit 15 (uint r)" by (simp add: sint_uint)
  also have "\<dots> = uint r"
  proof (rule signed_take_bit_int_eq_self)
    have "- (2 ^ 15) \<le> (0 :: int)" by simp
    also have "0 \<le> uint r" by simp
    finally show "- (2 ^ 15) \<le> uint r" .
    show "uint r < 2 ^ 15" using u by simp
  qed
  finally show ?thesis using u by simp
qed

lemma button_hold_returns:
  "button \<noteq> 0 \<or> (\<exists>r\<in>set rs. ucast r AND (0x02 :: c_uint) \<noteq> 0) \<Longrightarrow>
   \<exists>es. button_hold button rs = Inr es"
proof (induction rs arbitrary: button)
  case Nil
  then show ?case by simp
next
  case (Cons r rs)
  show ?case
  proof (cases "button = 0")
    case False
    then show ?thesis by simp
  next
    case True
    with Cons.prems have "ucast r AND (0x02 :: c_uint) \<noteq> 0
        \<or> (\<exists>r\<in>set rs. ucast r AND (0x02 :: c_uint) \<noteq> 0)"
      by simp
    from Cons.IH [OF this] obtain es where "button_hold (ucast r AND 0x02) rs = Inr es" ..
    with True show ?thesis by simp
  qed
qed

lemma button_sense_returns:
  assumes "\<exists>r\<in>set reads. ucast r AND (0x02 :: c_uint) \<noteq> 0"
  shows "\<exists>ctr' es. button_sense ctr reads = Inr (ctr', es)"
proof (cases reads)
  case Nil
  with assms show ?thesis by simp
next
  case (Cons r rs)
  with assms have "ucast r AND (0x02 :: c_uint) \<noteq> 0
      \<or> (\<exists>r\<in>set rs. ucast r AND (0x02 :: c_uint) \<noteq> 0)"
    by simp
  from button_hold_returns [OF this] obtain es where
    "button_hold (ucast r AND 0x02) rs = Inr es" ..
  then show ?thesis by (simp add: button_sense_def Cons Let_def)
qed

lemma adc_wait_returns: "False \<in> set busy \<Longrightarrow> adc_wait busy = Inr ()"
  by (induction busy) auto

lemma acquire_returns: "False \<in> set busy \<Longrightarrow> \<exists>es. acquire busy = Inr es"
  by (simp add: acquire_def adc_wait_returns)

lemma print_7seg_10bit:
  assumes "READ_VOLTAGE_OR_DEG cfg" "(r :: c_uint) \<le> 1023"
  shows "\<exists>es. print_7seg cfg (dbl_mul (dbl_of_int r) VOLTAGE_COEFF) = Inr es"
proof -
  from sint_10bit [OF assms(2)] have "0 \<le> sint r" "sint r \<le> 1023" by simp_all
  from mV_10bit [OF this] obtain v where
    v: "dbl_to_int (dbl_mul (dbl_of_int r) VOLTAGE_COEFF) = Inr v" "0 \<le> sint v"
    by auto
  show ?thesis
    using assms(1) by (simp add: print_7seg_def v(1) write_4digit_nonneg [OF v(2)])
qed

text \<open>
  In the millivolt build a pass returns whenever the button is seen released at some
  reading of \<open>P2IN\<close>, the converter is seen idle at some reading of its busy flag, and
  the two samples are 10-bit values, as the ADC10 delivers them.
\<close>

lemma iteration_returns:
  assumes "READ_VOLTAGE_OR_DEG cfg"
    and "\<exists>r\<in>set (P2IN inp). ucast r AND (0x02 :: c_uint) \<noteq> 0"
    and "False \<in> set (ADC10_busy inp)"
    and "p1_samples_0 inp \<le> 1023" "p1_samples_2 inp \<le> 1023"
  shows "\<exists>s' es. iteration cfg inp s = Inr (s', es)"
proof -
  from button_sense_returns [OF assms(2)] obtain ctr held where
    bs: "button_sense (button_ctr s) (P2IN inp) = Inr (ctr, held)" by blast
  from acquire_returns [OF assms(3)] obtain sampled where
    ac: "acquire (ADC10_busy inp) = Inr sampled" ..
  from print_7seg_10bit [OF assms(1,4)] obtain shown_pot where
    pp: "print_7seg cfg (dbl_mul (dbl_of_int (p1_samples_0 inp)) VOLTAGE_COEFF) = Inr shown_pot" ..
  from print_7seg_10bit [OF assms(1,5)] obtain shown where
    pr: "print_7seg cfg (dbl_mul (dbl_of_int (p1_samples_2 inp)) VOLTAGE_COEFF) = Inr shown" ..
  obtain buzzed ctr_b where
    tc: "threshold_control cfg (p1_samples_2 inp) (p1_samples_0 inp) (buzz_ctr s)
       = (buzzed, ctr_b)"
    by (cases "threshold_control cfg (p1_samples_2 inp) (p1_samples_0 inp) (buzz_ctr s)")
  consider "ctr mod 3 = 2" | "ctr mod 3 = 1" | "ctr mod 3 = 0"
    using mod_3_cases [of ctr] by blast
  then show ?thesis
  proof cases
    case 1
    from iteration_off [OF bs 1] show ?thesis by blast
  next
    case 2
    from iteration_pot [OF bs 2 ac pp] show ?thesis by blast
  next
    case 3
    from iteration_normal [OF bs 3 ac tc pr] show ?thesis by blast
  qed
qed

subsection \<open>The three modes\<close>

lemma bus_refresh:
  "bus_actions prev (refresh c_1 c_2 c_3 c_4) =
     map Shift ([False, False, False, False] @ [False, False, False, True]
                @ map (bit c_1) [0..<8]) @ [Latch]
     @ map Shift ([False, False, False, False] @ [False, False, True, False]
                  @ map (bit c_2) [0..<8]) @ [Latch]
     @ map Shift ([False, False, False, False] @ [False, True, False, False]
                  @ map (bit c_3) [0..<8]) @ [Latch]
     @ map Shift ([False, False, False, False] @ [True, False, False, False]
                  @ map (bit c_4) [0..<8]) @ [Latch]"
  unfolding refresh_def bus_actions_append bus_write_7seg by simp

lemma index_at_EMPTY_X: "index_at EMPTY_X = Inr 0"
  by (simp add: index_at_def EMPTY_X_def index_def)

lemma display_of_blank: "display_of (10, 10, 10, 10) = concat (replicate 80 (refresh 0 0 0 0))"
  by (simp add: display_of_def index_def)

text \<open>
  Claim C3. Whenever the press count after the button sense is 2 modulo 3, the pass
  returns normally, leaves \<open>buzz_ctr\<close> alone, and after the wait for the button does
  nothing but 80 display refreshes with the pattern \<open>index[EMPTY_X] = 0b00000000\<close> on all
  four positions: on the wire, each of the four words latched per refresh selects one
  position and carries eight zero segment bits. No register of the converter is touched,
  the buzzer pin is not raised, and the outcome is the same whatever the analog inputs
  are.
\<close>

theorem off_mode_blank:
  assumes "button_sense (button_ctr s) (P2IN inp) = Inr (ctr, held)" and "ctr mod 3 = 2"
  shows "iteration cfg inp s
           = Inr (s\<lparr>button_ctr := ctr\<rparr>, held @ concat (replicate 80 (refresh 0 0 0 0)))
         \<and> iteration cfg (inp\<lparr>ADC10_busy := busy, p1_samples_0 := x, p1_samples_2 := y\<rparr>) s
           = iteration cfg inp s
         \<and> \<not> samples_taken (held @ concat (replicate 80 (refresh 0 0 0 0)))
         \<and> \<not> buzzer_invoked (held @ concat (replicate 80 (refresh 0 0 0 0)))
         \<and> index_at EMPTY_X = Inr 0
         \<and> bus_actions prev (refresh 0 0 0 0) =
             map Shift ([False, False, False, False] @ [False, False, False, True]
                        @ replicate 8 False) @ [Latch]
             @ map Shift ([False, False, False, False] @ [False, False, True, False]
                          @ replicate 8 False) @ [Latch]
             @ map Shift ([False, False, False, False] @ [False, True, False, False]
                          @ replicate 8 False) @ [Latch]
             @ map Shift ([False, False, False, False] @ [True, False, False, False]
                          @ replicate 8 False) @ [Latch]"
proof -
  have a: "iteration cfg inp s
      = Inr (s\<lparr>button_ctr := ctr\<rparr>, held @ concat (replicate 80 (refresh 0 0 0 0)))"
    using iteration_off [OF assms] by (simp add: display_of_blank)
  have "button_sense (button_ctr s)
          (P2IN (inp\<lparr>ADC10_busy := busy, p1_samples_0 := x, p1_samples_2 := y\<rparr>))
        = Inr (ctr, held)"
    using assms(1) by simp
  from iteration_off [OF this assms(2)]
  have b: "iteration cfg (inp\<lparr>ADC10_busy := busy, p1_samples_0 := x, p1_samples_2 := y\<rparr>) s
      = iteration cfg inp s"
    by (simp add: a display_of_blank)
  have q: "\<not> samples_taken held \<and> \<not> buzzer_invoked held"
    using button_sense_quiet [OF assms(1)] by simp
  have d: "\<not> samples_taken (concat (replicate 80 (refresh 0 0 0 0)))
      \<and> \<not> buzzer_invoked (concat (replicate 80 (refresh 0 0 0 0)))"
    using display_events_quiet [OF display_of_display [of "(10, 10, 10, 10)"]]
    by (simp add: display_of_blank)
  have z: "map (bit (0 :: c_uint)) [0..<8] = replicate 8 False"
    by (simp add: upt_rec numeral_eq_Suc)
  show ?thesis
    using a b q d index_at_EMPTY_X bus_refresh [of prev 0 0 0 0]
    by (simp only: z samples_taken_append buzzer_invoked_append simp_thms)
qed


lemma button_sense_pressed_once:
  "button_sense ctr [0x00, 0x02] = Inr (ctr + 1, [Busy_wait 200])"
  by (simp add: button_sense_def WAIT_TIME_def)

lemma button_sense_released: "button_sense ctr [0x02] = Inr (ctr, [])"
  by (simp add: button_sense_def)

theorem off_mode_blank_witness:
  "button_sense 4 [0x00, 0x02] = Inr (5, [Busy_wait 200])
   \<and> (5 :: c_uint) mod 3 = 2
   \<and> iteration (source_config dbl_to_int)
        \<lparr>P2IN = [0x00, 0x02], ADC10_busy = [], p1_samples_0 = 500, p1_samples_2 = 600\<rparr>
        \<lparr>buzz_ctr = 3, button_ctr = 4\<rparr>
      = Inr (\<lparr>buzz_ctr = 3, button_ctr = 5\<rparr>,
             [Busy_wait 200] @ concat (replicate 80 (refresh 0 0 0 0)))
   \<and> index_at EMPTY_X = Inr 0"
proof -
  have h1: "button_sense
      (button_ctr \<lparr>buzz_ctr = 3, button_ctr = 4\<rparr>)
      (P2IN \<lparr>P2IN = [0x00, 0x02], ADC10_busy = [], p1_samples_0 = 500, p1_samples_2 = 600\<rparr>)
      = Inr (5, [Busy_wait 200])"
    using button_sense_pressed_once [of 4] by simp
  have h2: "(5 :: c_uint) mod 3 = 2" by simp
  show ?thesis
    using off_mode_blank [OF h1 h2, of "source_config dbl_to_int"] h1 h2 by simp
qed

text \<open>
  Claim C7. A pass that completes with the press count at 1 modulo 3 leaves \<open>buzz_ctr\<close>
  as it was and does not raise the buzzer pin, whatever the samples are; its events are
  those of the button wait, of the data acquisition and of printing the potentiometer
  reading, in that order.
\<close>

theorem pot_mode_no_threshold:
  assumes "iteration cfg inp s = Inr (s', es)" and "button_ctr s' mod 3 = 1"
  shows "buzz_ctr s' = buzz_ctr s
         \<and> \<not> buzzer_invoked es
         \<and> (\<exists>held sampled shown.
               button_sense (button_ctr s) (P2IN inp) = Inr (button_ctr s', held)
               \<and> acquire (ADC10_busy inp) = Inr sampled
               \<and> print_7seg cfg (dbl_mul (dbl_of_int (p1_samples_0 inp)) VOLTAGE_COEFF)
                   = Inr shown
               \<and> es = held @ sampled @ shown)"
  using assms(1)
proof (cases rule: iteration_InrE)
  case (off held)
  with assms(2) show ?thesis by simp
next
  case (pot held sampled shown)
  have "\<not> buzzer_invoked held"
    using button_sense_quiet [OF pot(1)] by simp
  moreover have "\<not> buzzer_invoked sampled"
    using acquire_quiet [OF pot(3)] .
  moreover have "\<not> buzzer_invoked shown"
    using display_events_quiet [OF print_7seg_display [OF pot(4)]] by simp
  moreover have "buzz_ctr s' = buzz_ctr s"
    by (subst pot(5)) simp
  ultimately show ?thesis
    using pot by auto
next
  case (normal held sampled buzzed shown)
  with assms(2) show ?thesis by simp
qed

lemma acquire_idle:
  "acquire [False] = Inr [Adc_disable, Set_ADC10SA 0x200, Or_P1OUT 0x01, Adc_start, And_P1OUT 0xFE]"
  by (simp add: acquire_def)

lemma print_7seg_500:
  "READ_VOLTAGE_OR_DEG cfg \<Longrightarrow>
   print_7seg cfg (dbl_mul (dbl_of_int 500) VOLTAGE_COEFF) = Inr (display_of (1, 4, 8, 0))"
proof -
  have nn: "0 \<le> sint (1480 :: c_int)" by simp
  have dec: "decimal_4 1480 = (1, 4, 8, 0)" by (simp add: decimal_4_def)
  assume "READ_VOLTAGE_OR_DEG cfg"
  then show ?thesis
    by (simp add: print_7seg_def mV_500 write_4digit_nonneg [OF nn] dec)
qed

theorem pot_mode_no_threshold_witness:
  "iteration (source_config dbl_to_int)
     \<lparr>P2IN = [0x02], ADC10_busy = [False], p1_samples_0 = 500, p1_samples_2 = 600\<rparr>
     \<lparr>buzz_ctr = 2, button_ctr = 1\<rparr>
   = Inr (\<lparr>buzz_ctr = 2, button_ctr = 1\<rparr>,
          [Adc_disable, Set_ADC10SA 0x200, Or_P1OUT 0x01, Adc_start, And_P1OUT 0xFE]
          @ display_of (1, 4, 8, 0))
   \<and> (1 :: c_uint) mod 3 = 1
   \<and> \<not> buzzer_invoked
        ([Adc_disable, Set_ADC10SA 0x200, Or_P1OUT 0x01, Adc_start, And_P1OUT 0xFE]
         @ display_of (1, 4, 8, 0))"
proof -
  let ?inp = "\<lparr>P2IN = [0x02], ADC10_busy = [False], p1_samples_0 = 500, p1_samples_2 = 600\<rparr>"
  let ?s = "\<lparr>buzz_ctr = 2, button_ctr = 1\<rparr>"
  let ?es = "[Adc_disable, Set_ADC10SA 0x200, Or_P1OUT 0x01, Adc_start, And_P1OUT 0xFE]
          @ display_of (1, 4, 8, 0)"
  have bs: "button_sense (button_ctr ?s) (P2IN ?inp) = Inr (1, [])"
    using button_sense_released [of 1] by simp
  have m: "(1 :: c_uint) mod 3 = 1" by simp
  have ac: "acquire (ADC10_busy ?inp)
      = Inr [Adc_disable, Set_ADC10SA 0x200, Or_P1OUT 0x01, Adc_start, And_P1OUT 0xFE]"
    using acquire_idle by simp
  have pr: "print_7seg (source_config dbl_to_int)
      (dbl_mul (dbl_of_int (p1_samples_0 ?inp)) VOLTAGE_COEFF) = Inr (display_of (1, 4, 8, 0))"
    using print_7seg_500 [of "source_config dbl_to_int"] by (simp add: source_config_def)
  have it: "iteration (source_config dbl_to_int) ?inp ?s = Inr (?s, ?es)"
    using iteration_pot [OF bs m ac pr] by simp
  have m': "button_ctr ?s mod 3 = 1" by simp
  from pot_mode_no_threshold [OF it m'] it m show ?thesis by simp
qed


lemma threshold_control_buzzes:
  "TEMP_THRESHOLD_TOGGLE cfg \<Longrightarrow>
   buzzer_invoked (fst (threshold_control cfg reading reading_pot ctr))
     \<longleftrightarrow> reading_pot <s reading \<and> ctr < BUZZER_LIMIT cfg"
  by (simp add: threshold_control_def buzzer_invoked_buzz)

lemma threshold_control_counter:
  "snd (threshold_control cfg reading reading_pot ctr)
     = (if reading_pot <s reading then ctr + 1 else 0)"
  by (simp add: threshold_control_def)

text \<open>
  Claim C5. In a build with the threshold feature on, a pass that completes in normal
  mode (press count 0 modulo 3) runs the buzzer exactly if the primary reading exceeds
  the potentiometer reading and \<open>buzz_ctr\<close> was below \<open>BUZZER_LIMIT\<close> before the pass. If
  the reading exceeds the threshold and the counter has reached the limit, the counter
  is incremented and the buzzer stays silent.
\<close>

theorem normal_mode_buzzer:
  assumes "TEMP_THRESHOLD_TOGGLE cfg"
    and "iteration cfg inp s = Inr (s', es)"
    and "button_ctr s' mod 3 = 0"
  shows "(buzzer_invoked es
            \<longleftrightarrow> p1_samples_0 inp <s p1_samples_2 inp \<and> buzz_ctr s < BUZZER_LIMIT cfg)
         \<and> (p1_samples_0 inp <s p1_samples_2 inp \<and> \<not> buzz_ctr s < BUZZER_LIMIT cfg
              \<longrightarrow> buzz_ctr s' = buzz_ctr s + 1 \<and> \<not> buzzer_invoked es)"
  using assms(2)
proof (cases rule: iteration_InrE)
  case (off held)
  with assms(3) show ?thesis by simp
next
  case (pot held sampled shown)
  with assms(3) show ?thesis by simp
next
  case (normal held sampled buzzed shown)
  have "\<not> buzzer_invoked held"
    using button_sense_quiet [OF normal(1)] by simp
  moreover have "\<not> buzzer_invoked sampled"
    using acquire_quiet [OF normal(3)] .
  moreover have "\<not> buzzer_invoked shown"
    using display_events_quiet [OF print_7seg_display [OF normal(5)]] by simp
  ultimately have "buzzer_invoked es \<longleftrightarrow> buzzer_invoked buzzed"
    by (simp add: normal(7))
  also have "\<dots> \<longleftrightarrow> p1_samples_0 inp <s p1_samples_2 inp \<and> buzz_ctr s < BUZZER_LIMIT cfg"
    using threshold_control_buzzes [OF assms(1), of "p1_samples_2 inp" "p1_samples_0 inp" "buzz_ctr s"]
    by (simp add: normal(4))
  finally have a: "buzzer_invoked es
      \<longleftrightarrow> p1_samples_0 inp <s p1_samples_2 inp \<and> buzz_ctr s < BUZZER_LIMIT cfg" .
  have b: "buzz_ctr s' = (if p1_samples_0 inp <s p1_samples_2 inp then buzz_ctr s + 1 else 0)"
    using threshold_control_counter [of cfg "p1_samples_2 inp" "p1_samples_0 inp" "buzz_ctr s"]
    by (simp add: normal(4))
  from a b show ?thesis by simp
qed

lemma mV_600: "dbl_to_int (dbl_mul (dbl_of_int 600) VOLTAGE_COEFF) = Inr 1776"
  by code_simp

lemma print_7seg_600:
  "READ_VOLTAGE_OR_DEG cfg \<Longrightarrow>
   print_7seg cfg (dbl_mul (dbl_of_int 600) VOLTAGE_COEFF) = Inr (display_of (1, 7, 7, 6))"
proof -
  have nn: "0 \<le> sint (1776 :: c_int)" by simp
  have dec: "decimal_4 1776 = (1, 7, 7, 6)" by (simp add: decimal_4_def)
  assume "READ_VOLTAGE_OR_DEG cfg"
  then show ?thesis
    by (simp add: print_7seg_def mV_600 write_4digit_nonneg [OF nn] dec)
qed

text \<open>One pass in normal mode with the primary reading 600 above the potentiometer's 500.\<close>

lemma iteration_600_over_500:
  assumes "READ_VOLTAGE_OR_DEG cfg" "TEMP_THRESHOLD_TOGGLE cfg" "button_ctr s mod 3 = 0"
  shows "iteration cfg
           \<lparr>P2IN = [0x02], ADC10_busy = [False], p1_samples_0 = 500, p1_samples_2 = 600\<rparr> s
         = Inr (s\<lparr>buzz_ctr := buzz_ctr s + 1\<rparr>,
                [Adc_disable, Set_ADC10SA 0x200, Or_P1OUT 0x01, Adc_start, And_P1OUT 0xFE]
                @ (if buzz_ctr s < BUZZER_LIMIT cfg then buzz else [])
                @ display_of (1, 7, 7, 6))"
proof -
  let ?inp = "\<lparr>P2IN = [0x02], ADC10_busy = [False], p1_samples_0 = 500, p1_samples_2 = 600\<rparr>"
  have bs: "button_sense (button_ctr s) (P2IN ?inp) = Inr (button_ctr s, [])"
    using button_sense_released [of "button_ctr s"] by simp
  have ac: "acquire (ADC10_busy ?inp)
      = Inr [Adc_disable, Set_ADC10SA 0x200, Or_P1OUT 0x01, Adc_start, And_P1OUT 0xFE]"
    using acquire_idle by simp
  have gt: "(500 :: c_int) <s 600" by (simp add: word_sless_alt)
  have tc: "threshold_control cfg (p1_samples_2 ?inp) (p1_samples_0 ?inp) (buzz_ctr s)
      = (if buzz_ctr s < BUZZER_LIMIT cfg then buzz else [], buzz_ctr s + 1)"
    using assms(2) gt by (simp add: threshold_control_def)
  have pr: "print_7seg cfg (dbl_mul (dbl_of_int (p1_samples_2 ?inp)) VOLTAGE_COEFF)
      = Inr (display_of (1, 7, 7, 6))"
    using print_7seg_600 [OF assms(1)] by simp
  show ?thesis
    using iteration_normal [OF bs assms(3) ac tc pr] by simp
qed

theorem normal_mode_buzzer_witness:
  "TEMP_THRESHOLD_TOGGLE (source_config dbl_to_int)
   \<and> iteration (source_config dbl_to_int)
        \<lparr>P2IN = [0x02], ADC10_busy = [False], p1_samples_0 = 500, p1_samples_2 = 600\<rparr>
        \<lparr>buzz_ctr = 4, button_ctr = 3\<rparr>
      = Inr (\<lparr>buzz_ctr = 5, button_ctr = 3\<rparr>,
             [Adc_disable, Set_ADC10SA 0x200, Or_P1OUT 0x01, Adc_start, And_P1OUT 0xFE]
             @ buzz @ display_of (1, 7, 7, 6))
   \<and> (3 :: c_uint) mod 3 = 0
   \<and> buzzer_invoked
        ([Adc_disable, Set_ADC10SA 0x200, Or_P1OUT 0x01, Adc_start, And_P1OUT 0xFE]
         @ buzz @ display_of (1, 7, 7, 6))"
proof -
  let ?cfg = "source_config dbl_to_int"
  let ?inp = "\<lparr>P2IN = [0x02], ADC10_busy = [False], p1_samples_0 = 500, p1_samples_2 = 600\<rparr>"
  let ?s = "\<lparr>buzz_ctr = 4, button_ctr = 3\<rparr>"
  have c: "READ_VOLTAGE_OR_DEG ?cfg" "TEMP_THRESHOLD_TOGGLE ?cfg" "BUZZER_LIMIT ?cfg = 5"
    by (simp_all add: source_config_def)
  have m: "button_ctr ?s mod 3 = 0" by simp
  have it: "iteration ?cfg ?inp ?s
      = Inr (\<lparr>buzz_ctr = 5, button_ctr = 3\<rparr>,
             [Adc_disable, Set_ADC10SA 0x200, Or_P1OUT 0x01, Adc_start, And_P1OUT 0xFE]
             @ buzz @ display_of (1, 7, 7, 6))"
    using iteration_600_over_500 [OF c(1) c(2) m] by (simp add: c(3))
  have m': "button_ctr \<lparr>buzz_ctr = 5, button_ctr = 3\<rparr> mod 3 = 0" by simp
  have gt: "(500 :: c_int) <s 600" by (simp add: word_sless_alt)
  from normal_mode_buzzer [OF c(2) it m'] gt it c(2) show ?thesis
    by (simp add: c(3))
qed


lemma buzzer_invoked_Cons:
  "buzzer_invoked (e # es) \<longleftrightarrow> drives_buzzer e \<or> buzzer_invoked es"
  by (simp add: buzzer_invoked_def)

lemma acquire_events_quiet:
  "\<not> buzzer_invoked [Adc_disable, Set_ADC10SA 0x200, Or_P1OUT 0x01, Adc_start, And_P1OUT 0xFE]"
  using acquire_quiet [OF acquire_idle] .

lemma display_of_quiet: "\<not> buzzer_invoked (display_of ds)"
  using display_events_quiet [OF display_of_display [of ds]] by simp

text \<open>
  The scenario of the specification: \<open>BUZZER_LIMIT\<close> is 2, the counter starts at 0, and
  four passes in normal mode read 600 against a threshold of 500.
\<close>

lemma scenario_limit_2:
  "main_loop ((source_config dc)\<lparr>BUZZER_LIMIT := 2\<rparr>)
     (replicate 4 \<lparr>P2IN = [0x02], ADC10_busy = [False], p1_samples_0 = 500, p1_samples_2 = 600\<rparr>)
     \<lparr>buzz_ctr = 0, button_ctr = 0\<rparr>
   = Inr [(\<lparr>buzz_ctr = 1, button_ctr = 0\<rparr>,
           [Adc_disable, Set_ADC10SA 0x200, Or_P1OUT 0x01, Adc_start, And_P1OUT 0xFE]
           @ buzz @ display_of (1, 7, 7, 6)),
          (\<lparr>buzz_ctr = 2, button_ctr = 0\<rparr>,
           [Adc_disable, Set_ADC10SA 0x200, Or_P1OUT 0x01, Adc_start, And_P1OUT 0xFE]
           @ buzz @ display_of (1, 7, 7, 6)),
          (\<lparr>buzz_ctr = 3, button_ctr = 0\<rparr>,
           [Adc_disable, Set_ADC10SA 0x200, Or_P1OUT 0x01, Adc_start, And_P1OUT 0xFE]
           @ display_of (1, 7, 7, 6)),
          (\<lparr>buzz_ctr = 4, button_ctr = 0\<rparr>,
           [Adc_disable, Set_ADC10SA 0x200, Or_P1OUT 0x01, Adc_start, And_P1OUT 0xFE]
           @ display_of (1, 7, 7, 6))]"
proof -
  let ?cfg = "(source_config dc)\<lparr>BUZZER_LIMIT := 2\<rparr>"
  have c: "READ_VOLTAGE_OR_DEG ?cfg" "TEMP_THRESHOLD_TOGGLE ?cfg" "BUZZER_LIMIT ?cfg = 2"
    by (simp_all add: source_config_def)
  have m: "button_ctr \<lparr>buzz_ctr = k, button_ctr = 0\<rparr> mod 3 = 0" for k :: c_uint
    by simp
  note step = iteration_600_over_500 [OF c(1) c(2) m]
  have r: "replicate 4 x = [x, x, x, x]" for x :: inputs
    by (simp add: numeral_eq_Suc)
  show ?thesis
    unfolding r by (simp add: step c(3))
qed

lemma scenario_counters:
  "buzz_ctr_trace ((source_config dc)\<lparr>BUZZER_LIMIT := 2\<rparr>)
     (replicate 4 \<lparr>P2IN = [0x02], ADC10_busy = [False], p1_samples_0 = 500, p1_samples_2 = 600\<rparr>)
     \<lparr>buzz_ctr = 0, button_ctr = 0\<rparr>
   = Inr [1, 2, 3, 4]"
  unfolding buzz_ctr_trace_def scenario_limit_2 by simp

lemma scenario_buzzer:
  "buzzer_trace ((source_config dc)\<lparr>BUZZER_LIMIT := 2\<rparr>)
     (replicate 4 \<lparr>P2IN = [0x02], ADC10_busy = [False], p1_samples_0 = 500, p1_samples_2 = 600\<rparr>)
     \<lparr>buzz_ctr = 0, button_ctr = 0\<rparr>
   = Inr [True, True, False, False]"
  unfolding buzzer_trace_def scenario_limit_2
  by (simp add: buzzer_invoked_Cons buzzer_invoked_buzz display_of_quiet)

text \<open>
  Claim C1 says that the counter after a pass is \<open>min (previous + 1) BUZZER_LIMIT\<close> when
  the reading exceeds the threshold, so that it never exceeds \<open>BUZZER_LIMIT\<close> and the
  scenario yields 1, 2, 2, 2. The code increments the counter in both branches that
  see the reading above the threshold (lines 140 and 142): the scenario yields 1, 2, 3, 4.
\<close>

theorem buzz_ctr_exceeds_limit:
  "buzz_ctr_trace ((source_config dbl_to_int)\<lparr>BUZZER_LIMIT := 2\<rparr>)
     (replicate 4 \<lparr>P2IN = [0x02], ADC10_busy = [False], p1_samples_0 = 500, p1_samples_2 = 600\<rparr>)
     \<lparr>buzz_ctr = 0, button_ctr = 0\<rparr>
   = Inr [1, 2, 3, 4]
   \<and> buzz_ctr_trace ((source_config dbl_to_int)\<lparr>BUZZER_LIMIT := 2\<rparr>)
     (replicate 4 \<lparr>P2IN = [0x02], ADC10_busy = [False], p1_samples_0 = 500, p1_samples_2 = 600\<rparr>)
     \<lparr>buzz_ctr = 0, button_ctr = 0\<rparr>
   \<noteq> Inr [1, 2, 2, 2]"
  unfolding scenario_counters by simp

text \<open>
  Claim C1, amended. After a pass that completes in normal mode, \<open>buzz_ctr\<close> is 0 if the
  primary reading does not exceed the potentiometer reading, and the previous value plus
  one (in 16-bit unsigned arithmetic) if it does, whether or not \<open>BUZZER_LIMIT\<close> has been
  reached; \<open>BUZZER_LIMIT\<close> bounds the number of buzzer runs, not the counter. With
  \<open>BUZZER_LIMIT = 2\<close>, the counter starting at 0 and four passes reading 600 against 500,
  the counter is 1, 2, 3, 4 and the buzzer runs in the first two passes only.
\<close>

theorem normal_mode_counter:
  assumes "iteration cfg inp s = Inr (s', es)" and "button_ctr s' mod 3 = 0"
  shows "buzz_ctr s' = (if p1_samples_0 inp <s p1_samples_2 inp then buzz_ctr s + 1 else 0)
         \<and> buzz_ctr_trace ((source_config dc)\<lparr>BUZZER_LIMIT := 2\<rparr>)
              (replicate 4
                 \<lparr>P2IN = [0x02], ADC10_busy = [False], p1_samples_0 = 500, p1_samples_2 = 600\<rparr>)
              \<lparr>buzz_ctr = 0, button_ctr = 0\<rparr>
            = Inr [1, 2, 3, 4]
         \<and> buzzer_trace ((source_config dc)\<lparr>BUZZER_LIMIT := 2\<rparr>)
              (replicate 4
                 \<lparr>P2IN = [0x02], ADC10_busy = [False], p1_samples_0 = 500, p1_samples_2 = 600\<rparr>)
              \<lparr>buzz_ctr = 0, button_ctr = 0\<rparr>
            = Inr [True, True, False, False]"
  using assms(1)
proof (cases rule: iteration_InrE)
  case (off held)
  with assms(2) show ?thesis by simp
next
  case (pot held sampled shown)
  with assms(2) show ?thesis by simp
next
  case (normal held sampled buzzed shown)
  have "buzz_ctr s' = (if p1_samples_0 inp <s p1_samples_2 inp then buzz_ctr s + 1 else 0)"
    using threshold_control_counter [of cfg "p1_samples_2 inp" "p1_samples_0 inp" "buzz_ctr s"]
    by (simp add: normal(4))
  then show ?thesis
    by (simp only: scenario_counters scenario_buzzer simp_thms)
qed

theorem normal_mode_counter_witness:
  "iteration (source_config dbl_to_int)
     \<lparr>P2IN = [0x02], ADC10_busy = [False], p1_samples_0 = 500, p1_samples_2 = 600\<rparr>
     \<lparr>buzz_ctr = 7, button_ctr = 0\<rparr>
   = Inr (\<lparr>buzz_ctr = 8, button_ctr = 0\<rparr>,
          [Adc_disable, Set_ADC10SA 0x200, Or_P1OUT 0x01, Adc_start, And_P1OUT 0xFE]
          @ display_of (1, 7, 7, 6))
   \<and> (0 :: c_uint) mod 3 = 0
   \<and> buzz_ctr \<lparr>buzz_ctr = 8, button_ctr = 0\<rparr> = 7 + 1
   \<and> BUZZER_LIMIT (source_config dbl_to_int) = 5"
proof -
  let ?cfg = "source_config dbl_to_int"
  let ?inp = "\<lparr>P2IN = [0x02], ADC10_busy = [False], p1_samples_0 = 500, p1_samples_2 = 600\<rparr>"
  let ?s = "\<lparr>buzz_ctr = 7, button_ctr = 0\<rparr>"
  have c: "READ_VOLTAGE_OR_DEG ?cfg" "TEMP_THRESHOLD_TOGGLE ?cfg" "BUZZER_LIMIT ?cfg = 5"
    by (simp_all add: source_config_def)
  have m: "button_ctr ?s mod 3 = 0" by simp
  have it: "iteration ?cfg ?inp ?s
      = Inr (\<lparr>buzz_ctr = 8, button_ctr = 0\<rparr>,
             [Adc_disable, Set_ADC10SA 0x200, Or_P1OUT 0x01, Adc_start, And_P1OUT 0xFE]
             @ display_of (1, 7, 7, 6))"
    using iteration_600_over_500 [OF c(1) c(2) m] by (simp add: c(3))
  have m': "button_ctr \<lparr>buzz_ctr = 8, button_ctr = 0\<rparr> mod 3 = 0" by simp
  have gt: "(500 :: c_int) <s 600" by (simp add: word_sless_alt)
  from normal_mode_counter [OF it m', of dbl_to_int] gt it c(3) show ?thesis
    by simp
qed

end
